theory Spec2Isabelle
  imports Main "HOL-Library.Word" "HOL-Library.Monad_Syntax" "HOL-Library.Multiset"
begin

unbundle bit_operations_syntax

section \<open>Go values\<close>

text \<open>
  A Go \<open>string\<close> is a sequence of bytes: it is modelled by \<open>string\<close> (a list of
  8-bit characters), and \<open>len\<close> is the number of bytes. Go's \<open>int\<close> is modelled by
  \<open>int\<close>: every integer of the engine is a length, an index or an edit distance, far
  from the 64-bit bounds. A \<open>rune\<close> is a code point. A panic is the value \<open>None\<close>.
\<close>

type_synonym rune = nat

definition len :: "'a list \<Rightarrow> int" where
  "len xs = int (length xs)"

text \<open>Indexing \<open>xs[i]\<close> and the assignment \<open>xs[i] = v\<close> panic out of range.\<close>

definition at :: "'a list \<Rightarrow> int \<Rightarrow> 'a option" where
  "at xs i = (if 0 \<le> i \<and> i < len xs then Some (xs ! nat i) else None)"

definition store :: "'a list \<Rightarrow> int \<Rightarrow> 'a \<Rightarrow> 'a list option" where
  "store xs i v = (if 0 \<le> i \<and> i < len xs then Some (xs[nat i := v]) else None)"

text \<open>The slices \<open>s[i:]\<close> and \<open>s[:i]\<close> of a string panic unless \<open>0 \<le> i \<le> len(s)\<close>.\<close>

definition slice_from :: "'a list \<Rightarrow> int \<Rightarrow> 'a list option" where
  "slice_from xs i = (if 0 \<le> i \<and> i \<le> len xs then Some (drop (nat i) xs) else None)"

definition slice_to :: "'a list \<Rightarrow> int \<Rightarrow> 'a list option" where
  "slice_to xs i = (if 0 \<le> i \<and> i \<le> len xs then Some (take (nat i) xs) else None)"

subsection \<open>Runes of a string\<close>

text \<open>
  The conversion \<open>[]rune(s)\<close> and the loop \<open>for _, r := range s\<close> decode UTF-8 as the Go
  language defines it: a byte sequence that is no valid encoding yields the rune
  \<open>0xFFFD\<close> and consumes one byte.
\<close>

definition RuneError :: rune where
  "RuneError = 65533"

definition byte :: "char \<Rightarrow> nat" where
  "byte c = of_char c"

definition cont :: "nat \<Rightarrow> nat \<Rightarrow> nat \<Rightarrow> bool" where
  "cont lo hi b = (lo \<le> b \<and> b \<le> hi)"

fun decodeRune :: "string \<Rightarrow> rune \<times> nat" where
  "decodeRune [] = (RuneError, 0)"
| "decodeRune (c # cs) =
     (let s0 = byte c; bs = map byte cs in
      if s0 < 128 then (s0, 1)
      else if s0 < 194 \<or> 244 < s0 then (RuneError, 1)
      else
        let sz = (if s0 < 224 then 2 else if s0 < 240 then 3 else 4 :: nat);
            lo = (if s0 = 224 then 160 else if s0 = 240 then 144 else 128);
            hi = (if s0 = 237 then 159 else if s0 = 244 then 143 else 191)
        in if length bs + 1 < sz then (RuneError, 1)
           else if \<not> cont lo hi (bs ! 0) then (RuneError, 1)
           else if sz = 2 then ((s0 mod 32) * 64 + bs ! 0 mod 64, 2)
           else if \<not> cont 128 191 (bs ! 1) then (RuneError, 1)
           else if sz = 3 then ((s0 mod 16) * 4096 + (bs ! 0 mod 64) * 64 + bs ! 1 mod 64, 3)
           else if \<not> cont 128 191 (bs ! 2) then (RuneError, 1)
           else ((s0 mod 8) * 262144 + (bs ! 0 mod 64) * 4096 + (bs ! 1 mod 64) * 64
                 + bs ! 2 mod 64, 4))"

fun runes :: "string \<Rightarrow> rune list" where
  "runes [] = []"
| "runes (c # cs) = fst (decodeRune (c # cs)) # runes (drop (snd (decodeRune (c # cs)) - 1) cs)"

section \<open>The distance engine (distance_comparer.go)\<close>

record DamerauOSA =
  baseChar1Costs :: "int list"
  basePrevChar1Costs :: "int list"

definition NewDamerauOSA :: DamerauOSA where
  "NewDamerauOSA = \<lparr> baseChar1Costs = [], basePrevChar1Costs = [] \<rparr>"

text \<open>\<open>make([]int, n)\<close>: a fresh slice of \<open>n\<close> zeros.\<close>

definition make_ints :: "int \<Rightarrow> int list" where
  "make_ints n = replicate (nat n) 0"

definition nullDistanceResults :: "string \<Rightarrow> string \<Rightarrow> int \<Rightarrow> int" where
  "nullDistanceResults string1 string2 maxDistance =
     (if string1 = string2 then 0
      else
        let s1 = len (runes string1);
            s2 = len (runes string2);
            distance = (if s2 > s1 then s2 else s1)
        in if distance > maxDistance then -1 else distance)"

text \<open>The two loops of \<open>prefixSuffixPrep\<close>.\<close>

function prefix_loop :: "rune list \<Rightarrow> rune list \<Rightarrow> int \<Rightarrow> int \<Rightarrow> int \<Rightarrow> int option" where
  "prefix_loop runeStr1 runeStr2 len1 len2 start =
     (if start < len1 \<and> start < len2 then
        do {
          c1 \<leftarrow> at runeStr1 start;
          c2 \<leftarrow> at runeStr2 start;
          if c1 = c2 then prefix_loop runeStr1 runeStr2 len1 len2 (start + 1)
          else Some start
        }
      else Some start)"
  by pat_completeness auto
termination
  by (relation "measure (\<lambda>(r1, r2, len1, len2, start). nat (len1 - start))") auto

declare prefix_loop.simps [simp del]

function suffix_loop :: "rune list \<Rightarrow> rune list \<Rightarrow> int \<Rightarrow> int \<Rightarrow> int \<Rightarrow> (int \<times> int) option" where
  "suffix_loop runeStr1 runeStr2 start len1 len2 =
     (if len1 > 0 \<and> len2 > 0 then
        do {
          c1 \<leftarrow> at runeStr1 (start + len1 - 1);
          c2 \<leftarrow> at runeStr2 (start + len2 - 1);
          if c1 = c2 then suffix_loop runeStr1 runeStr2 start (len1 - 1) (len2 - 1)
          else Some (len1, len2)
        }
      else Some (len1, len2))"
  by pat_completeness auto
termination
  by (relation "measure (\<lambda>(r1, r2, start, len1, len2). nat len1)") auto

declare suffix_loop.simps [simp del]

definition prefixSuffixPrep :: "rune list \<Rightarrow> rune list \<Rightarrow> (int \<times> int \<times> int) option" where
  "prefixSuffixPrep runeStr1 runeStr2 =
     do {
       start \<leftarrow> prefix_loop runeStr1 runeStr2 (len runeStr1) (len runeStr2) 0;
       (len1, len2) \<leftarrow> suffix_loop runeStr1 runeStr2 start
                         (len runeStr1 - start) (len runeStr2 - start);
       Some (len1, len2, start)
     }"

text \<open>
  The variables of the dynamic program that live across the iterations of the inner
  loop. \<open>dist\<close> and \<open>distanceWithMax\<close> have the same loop body, \<open>cell\<close>.
\<close>

record dp =
  char1Costs :: "int list"
  prevChar1Costs :: "int list"
  currentCost :: int
  leftCharCost :: int
  aboveCharCost :: int
  nextTransCost :: int
  char2 :: rune

definition cell :: "rune list \<Rightarrow> int \<Rightarrow> rune \<Rightarrow> rune \<Rightarrow> int \<Rightarrow> int \<Rightarrow> dp \<Rightarrow> dp option" where
  "cell runeStr2 start char1 prevChar1 i j s =
     do {
       let thisTransCost = nextTransCost s;
       n \<leftarrow> at (prevChar1Costs s) j;
       p \<leftarrow> store (prevChar1Costs s) j (currentCost s);
       let cur = leftCharCost s;
       left \<leftarrow> at (char1Costs s) j;
       let prevChar2 = char2 s;
       c2 \<leftarrow> at runeStr2 (start + j);
       let cur =
         (if char1 \<noteq> c2 then
            let cur = (if aboveCharCost s < cur then aboveCharCost s else cur);
                cur = (if left < cur then left else cur);
                cur = cur + 1
            in if i \<noteq> 0 \<and> j \<noteq> 0 \<and> char1 = prevChar2 \<and> prevChar1 = c2
                  \<and> thisTransCost + 1 < cur
               then thisTransCost + 1 else cur
          else cur);
       c \<leftarrow> store (char1Costs s) j cur;
       Some \<lparr> char1Costs = c, prevChar1Costs = p, currentCost = cur, leftCharCost = left,
              aboveCharCost = cur, nextTransCost = n, char2 = c2 \<rparr>
     }"

text \<open>The inner loop \<open>for j := ...; j < jEnd; j++\<close>.\<close>

function inner :: "rune list \<Rightarrow> int \<Rightarrow> rune \<Rightarrow> rune \<Rightarrow> int \<Rightarrow> int \<Rightarrow> int \<Rightarrow> dp \<Rightarrow> dp option" where
  "inner runeStr2 start char1 prevChar1 i jEnd j s =
     (if j < jEnd then
        do {
          s' \<leftarrow> cell runeStr2 start char1 prevChar1 i j s;
          inner runeStr2 start char1 prevChar1 i jEnd (j + 1) s'
        }
      else Some s)"
  by pat_completeness auto
termination
  by (relation "measure (\<lambda>(r2, start, c1, p1, i, jEnd, j, s). nat (jEnd - j))") auto

declare inner.simps [simp del]

text \<open>The loops that fill \<open>char1Costs\<close> before the first row.\<close>

function fill_index :: "int list \<Rightarrow> int \<Rightarrow> int \<Rightarrow> int list option" where
  "fill_index costs j n =
     (if j < n then do { c \<leftarrow> store costs j (j + 1); fill_index c (j + 1) n }
      else Some costs)"
  by pat_completeness auto
termination
  by (relation "measure (\<lambda>(c, j, n). nat (n - j))") auto

declare fill_index.simps [simp del]

function fill_const :: "int list \<Rightarrow> int \<Rightarrow> int \<Rightarrow> int \<Rightarrow> int list option" where
  "fill_const costs j n v =
     (if j < n then do { c \<leftarrow> store costs j v; fill_const c (j + 1) n v }
      else Some costs)"
  by pat_completeness auto
termination
  by (relation "measure (\<lambda>(c, j, n, v). nat (n - j))") auto

declare fill_const.simps [simp del]

text \<open>
  The outer loop of \<open>dist\<close>. Across its iterations live \<open>char1\<close>, \<open>currentCost\<close> and the
  two arrays; \<open>char2\<close>, \<open>leftCharCost\<close>, \<open>aboveCharCost\<close> and \<open>nextTransCost\<close> are set
  anew in every row.
\<close>

function dist_rows :: "rune list \<Rightarrow> rune list \<Rightarrow> int \<Rightarrow> int \<Rightarrow> int \<Rightarrow> int \<Rightarrow> rune \<Rightarrow> dp
    \<Rightarrow> dp option" where
  "dist_rows runeStr1 runeStr2 len1 len2 start i char1 s =
     (if i < len1 then
        do {
          let prevChar1 = char1;
          char1 \<leftarrow> at runeStr1 (start + i);
          s' \<leftarrow> inner runeStr2 start char1 prevChar1 i len2 0
                 (s\<lparr> char2 := 0, leftCharCost := i, aboveCharCost := i, nextTransCost := 0 \<rparr>);
          dist_rows runeStr1 runeStr2 len1 len2 start (i + 1) char1 s'
        }
      else Some s)"
  by pat_completeness auto
termination
  by (relation "measure (\<lambda>(r1, r2, len1, len2, start, i, c, s). nat (len1 - i))") auto

declare dist_rows.simps [simp del]

definition dist :: "rune list \<Rightarrow> rune list \<Rightarrow> int \<Rightarrow> int \<Rightarrow> int \<Rightarrow> int list \<Rightarrow> int list
    \<Rightarrow> (int \<times> int list \<times> int list) option" where
  "dist runeStr1 runeStr2 len1 len2 start char1Costs0 prevChar1Costs0 =
     do {
       c \<leftarrow> fill_index char1Costs0 0 len2;
       s \<leftarrow> dist_rows runeStr1 runeStr2 len1 len2 start 0 0
              \<lparr> char1Costs = c, prevChar1Costs = prevChar1Costs0, currentCost = 0,
                leftCharCost = 0, aboveCharCost = 0, nextTransCost = 0, char2 = 0 \<rparr>;
       Some (currentCost s, char1Costs s, prevChar1Costs s)
     }"

text \<open>
  The outer loop of \<open>distanceWithMax\<close>, with the window \<open>[jStart, jEnd)\<close>. The result is
  \<open>Inl\<close> of the state when the row check returns \<open>-1\<close> early, \<open>Inr\<close> of it when the loop
  runs to its end.
\<close>

function max_rows :: "rune list \<Rightarrow> rune list \<Rightarrow> int \<Rightarrow> int \<Rightarrow> int \<Rightarrow> int \<Rightarrow> int \<Rightarrow> int
    \<Rightarrow> int \<Rightarrow> rune \<Rightarrow> dp \<Rightarrow> (dp + dp) option" where
  "max_rows runeStr1 runeStr2 len1 len2 start maxDistance i jStart jEnd char1 s =
     (if i < len1 then
        do {
          let lenDiff = len2 - len1;
          let jStartOffset = maxDistance - lenDiff;
          let prevChar1 = char1;
          char1 \<leftarrow> at runeStr1 (start + i);
          let jStart = (if i > jStartOffset then jStart + 1 else jStart);
          let jEnd = (if jEnd < len2 then jEnd + 1 else jEnd);
          s' \<leftarrow> inner runeStr2 start char1 prevChar1 i jEnd jStart
                 (s\<lparr> char2 := 0, leftCharCost := i, aboveCharCost := i, nextTransCost := 0 \<rparr>);
          d \<leftarrow> at (char1Costs s') (i + lenDiff);
          if d > maxDistance then Some (Inl s')
          else max_rows runeStr1 runeStr2 len1 len2 start maxDistance (i + 1) jStart jEnd char1 s'
        }
      else Some (Inr s))"
  by pat_completeness auto
termination
  by (relation "measure (\<lambda>(r1, r2, len1, len2, start, m, i, js, je, c, s). nat (len1 - i))") auto

declare max_rows.simps [simp del]

definition distanceWithMax :: "rune list \<Rightarrow> rune list \<Rightarrow> int \<Rightarrow> int \<Rightarrow> int \<Rightarrow> int \<Rightarrow> int list
    \<Rightarrow> int list \<Rightarrow> (int \<times> int list \<times> int list) option" where
  "distanceWithMax runeStr1 runeStr2 len1 len2 start maxDistance char1Costs0 prevChar1Costs0 =
     do {
       c \<leftarrow> fill_index char1Costs0 0 maxDistance;
       c \<leftarrow> fill_const c maxDistance len2 (maxDistance + 1);
       r \<leftarrow> max_rows runeStr1 runeStr2 len1 len2 start maxDistance 0 0 maxDistance 0
              \<lparr> char1Costs = c, prevChar1Costs = prevChar1Costs0, currentCost = 0,
                leftCharCost = 0, aboveCharCost = 0, nextTransCost = 0, char2 = 0 \<rparr>;
       Some (case r of
               Inl s \<Rightarrow> (-1, char1Costs s, prevChar1Costs s)
             | Inr s \<Rightarrow> (if currentCost s \<le> maxDistance then currentCost s else -1,
                         char1Costs s, prevChar1Costs s))
     }"

text \<open>
  \<open>Distance\<close> returns the distance and the comparer, whose two scratch arrays the
  dynamic program has written.
\<close>

definition Distance :: "DamerauOSA \<Rightarrow> string \<Rightarrow> string \<Rightarrow> int \<Rightarrow> (int \<times> DamerauOSA) option" where
  "Distance d string1 string2 maxDistance =
     (if string1 = [] \<or> string2 = [] then
        Some (nullDistanceResults string1 string2 maxDistance, d)
      else if maxDistance \<le> 0 then
        Some (if string1 = string2 then 0 else -1, d)
      else
        let iMaxDistance = maxDistance;
            r1 = runes string1;
            r2 = runes string2;
            (runeStr1, runeStr2) = (if len r1 > len r2 then (r2, r1) else (r1, r2))
        in if len runeStr2 - len runeStr1 > iMaxDistance then Some (-1, d)
           else
             do {
               (len1, len2, start) \<leftarrow> prefixSuffixPrep runeStr1 runeStr2;
               if len1 = 0 then Some (if len2 \<le> iMaxDistance then len2 else -1, d)
               else
                 do {
                   let d = (if len2 > len (baseChar1Costs d)
                            then \<lparr> baseChar1Costs = make_ints len2,
                                   basePrevChar1Costs = make_ints len2 \<rparr>
                            else d);
                   (r, c, p) \<leftarrow>
                     (if iMaxDistance < len2
                      then distanceWithMax runeStr1 runeStr2 len1 len2 start iMaxDistance
                             (baseChar1Costs d) (basePrevChar1Costs d)
                      else dist runeStr1 runeStr2 len1 len2 start
                             (baseChar1Costs d) (basePrevChar1Costs d));
                   Some (r, \<lparr> baseChar1Costs = c, basePrevChar1Costs = p \<rparr>)
                 }
             })"

text \<open>\<open>comparer.Compare\<close> forwards to \<open>Distance\<close>; a comparer holds one \<open>DamerauOSA\<close>.\<close>

definition NewDistanceComparer :: DamerauOSA where
  "NewDistanceComparer = NewDamerauOSA"

definition Compare :: "DamerauOSA \<Rightarrow> string \<Rightarrow> string \<Rightarrow> int \<Rightarrow> (int \<times> DamerauOSA) option" where
  "Compare dc string1 string2 maxDistance = Distance dc string1 string2 maxDistance"


section \<open>Suggestions and their order (part_001)\<close>

type_synonym int64 = "64 word"

definition MaxInt64 :: int64 where
  "MaxInt64 = 9223372036854775807"

record SuggestItem =
  term_si :: string
  distance :: int
  count :: int64

type_synonym SuggestItems = "SuggestItem list"

text \<open>\<open>SuggestItems.Less\<close>, on the two items rather than on their indices.\<close>

definition Less :: "SuggestItem \<Rightarrow> SuggestItem \<Rightarrow> bool" where
  "Less a b = (if distance a = distance b then count b <s count a else distance a < distance b)"

definition addToSet :: "string set \<Rightarrow> string \<Rightarrow> bool \<times> string set" where
  "addToSet set0 key = (if key \<in> set0 then (False, set0) else (True, insert key set0))"

text \<open>
  \<open>strings.ContainsRune(s, r)\<close> of the Go library reports whether the code point \<open>r\<close> is
  within \<open>s\<close>.
\<close>

definition ContainsRune :: "string \<Rightarrow> rune \<Rightarrow> bool" where
  "ContainsRune s r = (r \<in> set (runes s))"

text \<open>A loop over a list whose body may panic.\<close>

fun foldlM :: "('s \<Rightarrow> 'a \<Rightarrow> 's option) \<Rightarrow> 's \<Rightarrow> 'a list \<Rightarrow> 's option" where
  "foldlM f s [] = Some s"
| "foldlM f s (x # xs) = do { s' \<leftarrow> f s x; foldlM f s' xs }"

section \<open>The staging structure (suggestion_stage.go)\<close>

record Entry =
  count_e :: int
  first :: int

record Node =
  suggestion :: string
  next_node :: int

record ChunkArrayNode =
  values_ca :: "Node list list"
  count_ca :: int

record SuggestionStage =
  deletes_ss :: "int \<rightharpoonup> Entry"
  nodes :: ChunkArrayNode

definition ChunkSize :: int where
  "ChunkSize = 4096"

definition DivShift :: nat where
  "DivShift = 12"

text \<open>Go's integer division truncates towards zero.\<close>

definition go_div :: "int \<Rightarrow> int \<Rightarrow> int" where
  "go_div a b = sgn a * sgn b * (\<bar>a\<bar> div \<bar>b\<bar>)"

definition zeroNode :: Node where
  "zeroNode = \<lparr> suggestion = [], next_node = 0 \<rparr>"

text \<open>\<open>make\<close> with a negative length panics.\<close>

definition NewChunkArrayNode :: "int \<Rightarrow> ChunkArrayNode option" where
  "NewChunkArrayNode initialCapacity =
     (let chunks = go_div (initialCapacity + ChunkSize - 1) ChunkSize in
      if chunks < 0 then None
      else Some \<lparr> values_ca = replicate (nat chunks) (replicate (nat ChunkSize) zeroNode),
                  count_ca = 0 \<rparr>)"

definition capacity :: "ChunkArrayNode \<Rightarrow> int" where
  "capacity ca = len (values_ca ca) * ChunkSize"

definition row :: "int \<Rightarrow> int" where
  "row index = drop_bit DivShift index"

definition col :: "int \<Rightarrow> int" where
  "col index = index AND (ChunkSize - 1)"

definition Add_ca :: "ChunkArrayNode \<Rightarrow> Node \<Rightarrow> (int \<times> ChunkArrayNode) option" where
  "Add_ca ca v =
     do {
       let ca = (if count_ca ca = capacity ca
                 then ca\<lparr> values_ca := values_ca ca @ [replicate (nat ChunkSize) zeroNode] \<rparr>
                 else ca);
       chunk \<leftarrow> at (values_ca ca) (row (count_ca ca));
       chunk' \<leftarrow> store chunk (col (count_ca ca)) v;
       vs \<leftarrow> store (values_ca ca) (row (count_ca ca)) chunk';
       let ca = ca\<lparr> values_ca := vs, count_ca := count_ca ca + 1 \<rparr>;
       Some (count_ca ca - 1, ca)
     }"

definition Get_ca :: "ChunkArrayNode \<Rightarrow> int \<Rightarrow> Node option" where
  "Get_ca ca index = do { chunk \<leftarrow> at (values_ca ca) (row index); at chunk (col index) }"

definition NewSuggestionStage :: "int \<Rightarrow> SuggestionStage option" where
  "NewSuggestionStage initialCapacity =
     do {
       ns \<leftarrow> NewChunkArrayNode (initialCapacity * 2);
       Some \<lparr> deletes_ss = Map.empty, nodes = ns \<rparr>
     }"

definition Add_ss :: "SuggestionStage \<Rightarrow> int \<Rightarrow> string \<Rightarrow> SuggestionStage option" where
  "Add_ss ss deleteHash sugg =
     do {
       let entry = (case deletes_ss ss deleteHash of
                      Some e \<Rightarrow> e
                    | None \<Rightarrow> \<lparr> count_e = 0, first = -1 \<rparr>);
       let nxt = first entry;
       let entry = entry\<lparr> count_e := count_e entry + 1 \<rparr>;
       let entry = entry\<lparr> first := count_ca (nodes ss) \<rparr>;
       let ss = ss\<lparr> deletes_ss := (deletes_ss ss)(deleteHash \<mapsto> entry) \<rparr>;
       (_, ns) \<leftarrow> Add_ca (nodes ss) \<lparr> suggestion = sugg, next_node = nxt \<rparr>;
       Some (ss\<lparr> nodes := ns \<rparr>)
     }"

text \<open>
  The body of \<open>CommitTo\<close> is commented out in the source: the function returns without
  touching the permanent map.
\<close>

definition CommitTo :: "SuggestionStage \<Rightarrow> (int \<rightharpoonup> string list) \<Rightarrow> (int \<rightharpoonup> string list)" where
  "CommitTo ss permanentDeletes = permanentDeletes"

section \<open>The dictionary index (part_000)\<close>

datatype Verbosity = Top | Closest | AllV

text \<open>
  A bucket of \<open>deletes\<close> is a Go \<open>map[string]struct{}\<close>, a set of terms: it is a list
  without duplicates here, and the order of the list stands for the order in which a
  \<open>range\<close> loop visits it, which Go leaves open. The \<open>float64\<close> field \<open>n\<close> is used by
  \<open>LookupCompound\<close> only and travels with the floating-point operations there.
\<close>

record SymSpell =
  initialCapacity :: int
  maxDictionaryEditDistance :: int
  prefixLength :: int
  countThreshold :: int64
  compactMask :: "32 word"
  maxDictionaryWordLength :: int
  deletes :: "int \<rightharpoonup> string list"
  words :: "string \<rightharpoonup> int64"
  belowThresholdWords :: "string \<rightharpoonup> int64"
  bigrams :: "string \<rightharpoonup> int64"
  bigramCountMin :: int64

definition NewSymSpell :: "int \<Rightarrow> int \<Rightarrow> int \<Rightarrow> int64 \<Rightarrow> 8 word \<Rightarrow> string + SymSpell" where
  "NewSymSpell initialCapacity0 maxDictionaryEditDistance0 prefixLength0 countThreshold0
       compactLevel =
     (if initialCapacity0 < 0 then Inl ''initialCapacity must be >= 0''
      else if maxDictionaryEditDistance0 < 0 then Inl ''maxDictionaryEditDistance must be >= 0''
      else if prefixLength0 < 1 \<or> prefixLength0 \<le> maxDictionaryEditDistance0
        then Inl ''prefixLength must be > 1 and > maxDictionaryEditDistance''
      else if countThreshold0 <s 0 then Inl ''countThreshold must be >= 0''
      else if compactLevel > 16 then Inl ''compactLevel must be <= 16''
      else
        Inr \<lparr> initialCapacity = initialCapacity0,
              maxDictionaryEditDistance = maxDictionaryEditDistance0,
              prefixLength = prefixLength0,
              countThreshold = countThreshold0,
              compactMask = push_bit 2 (drop_bit (unat (3 + compactLevel)) (4294967295 :: 32 word)),
              maxDictionaryWordLength = 0,
              deletes = Map.empty,
              words = Map.empty,
              belowThresholdWords = Map.empty,
              bigrams = Map.empty,
              bigramCountMin = MaxInt64 \<rparr>)"

text \<open>
  \<open>Edits\<close>: the loop over the positions of \<open>word\<close>, with \<open>editDistance\<close> already
  incremented. The recursive call of \<open>Edits\<close> on \<open>deleteStr\<close> increments it again and
  enters the loop when \<open>len(deleteStr) > 1\<close>.
\<close>

function Edits_loop :: "int \<Rightarrow> string \<Rightarrow> int \<Rightarrow> int \<Rightarrow> string list \<Rightarrow> string list" where
  "Edits_loop maxDED word editDistance i deleteWords =
     (if i < len word then
        let deleteStr = take (nat i) word @ drop (nat (i + 1)) word in
        if deleteStr \<notin> set deleteWords then
          let deleteWords = deleteWords @ [deleteStr];
              deleteWords =
                (if editDistance < maxDED then
                   (if len deleteStr > 1
                    then Edits_loop maxDED deleteStr (editDistance + 1) 0 deleteWords
                    else deleteWords)
                 else deleteWords)
          in Edits_loop maxDED word editDistance (i + 1) deleteWords
        else Edits_loop maxDED word editDistance (i + 1) deleteWords
      else deleteWords)"
  by pat_completeness auto
termination
  by (relation "measures [\<lambda>(m, w, e, i, d). nat (m - e), \<lambda>(m, w, e, i, d). nat (len w - i)]")
     (auto simp: len_def)

declare Edits_loop.simps [simp del]

definition Edits :: "SymSpell \<Rightarrow> string \<Rightarrow> int \<Rightarrow> string list \<Rightarrow> string list" where
  "Edits s word editDistance deleteWords =
     (let editDistance = editDistance + 1 in
      if len word > 1
      then Edits_loop (maxDictionaryEditDistance s) word editDistance 0 deleteWords
      else deleteWords)"

text \<open>The set \<open>hashSet\<close> is the list of its members in the order they were added.\<close>

definition add_str :: "string list \<Rightarrow> string \<Rightarrow> string list" where
  "add_str hashSet k = (if k \<in> set hashSet then hashSet else hashSet @ [k])"

definition EditsPrefix :: "SymSpell \<Rightarrow> string \<Rightarrow> string list" where
  "EditsPrefix s key0 =
     (let hashSet = [];
          hashSet = (if len key0 \<le> maxDictionaryEditDistance s then add_str hashSet [] else hashSet);
          key = (if len key0 > prefixLength s then take (nat (prefixLength s)) key0 else key0);
          hashSet = add_str hashSet key
      in Edits s key 0 hashSet)"

definition GetStringHash :: "SymSpell \<Rightarrow> string \<Rightarrow> int" where
  "GetStringHash s str =
     (let lenRunes = len (runes str);
          lenMask = (if lenRunes > 3 then 3 else lenRunes);
          hash = foldl (\<lambda>h r. (h XOR of_nat r) * 16777619) (2166136261 :: 32 word) (runes str);
          hash = hash AND compactMask s;
          hash = hash OR of_int lenMask
      in uint hash)"

text \<open>The body of the loop that inserts \<open>key\<close> into the bucket of one delete string.\<close>

definition add_delete :: "SymSpell \<Rightarrow> string \<Rightarrow> (int \<rightharpoonup> string list) \<Rightarrow> string
    \<Rightarrow> (int \<rightharpoonup> string list)" where
  "add_delete s key dels deleteStr =
     (let deleteHash = GetStringHash s deleteStr;
          bucket = (case dels deleteHash of None \<Rightarrow> [] | Some b \<Rightarrow> b)
      in dels(deleteHash \<mapsto> add_str bucket key))"

text \<open>The saturating addition of \<open>countPrevious\<close> to \<open>count\<close>.\<close>

definition add_count :: "int64 \<Rightarrow> int64 \<Rightarrow> int64" where
  "add_count countPrevious count0 =
     (if count0 <s MaxInt64 - countPrevious then count0 + countPrevious else MaxInt64)"

text \<open>
  \<open>CreateDictionaryEntry\<close> returns its boolean, the engine and the staging structure.
  \<open>Inl\<close> in the middle stands for the early \<open>return false\<close>.
\<close>

definition CreateDictionaryEntry :: "SymSpell \<Rightarrow> string \<Rightarrow> int64 \<Rightarrow> SuggestionStage option
    \<Rightarrow> (bool \<times> SymSpell \<times> SuggestionStage option) option" where
  "CreateDictionaryEntry s key count0 staging =
     (if count0 \<le>s 0 \<and> 0 <s countThreshold s then Some (False, s, staging)
      else
        let count0 = (if count0 \<le>s 0 then 0 else count0);
            r =
              (if 1 <s countThreshold s then
                 (case belowThresholdWords s key of
                    Some c \<Rightarrow>
                      let count0 = add_count c count0 in
                      if countThreshold s \<le>s count0
                      then Inr (s\<lparr> belowThresholdWords := (belowThresholdWords s)(key := None) \<rparr>,
                                count0)
                      else Inl (s\<lparr> belowThresholdWords := (belowThresholdWords s)(key \<mapsto> count0) \<rparr>)
                  | None \<Rightarrow>
                      (case words s key of
                         Some c \<Rightarrow>
                           let count0 = add_count c count0 in
                           Inl (s\<lparr> words := (words s)(key \<mapsto> count0) \<rparr>)
                       | None \<Rightarrow>
                           if count0 <s countThreshold s
                           then Inl (s\<lparr> belowThresholdWords :=
                                          (belowThresholdWords s)(key \<mapsto> count0) \<rparr>)
                           else Inr (s, count0)))
               else
                 (case words s key of
                    Some c \<Rightarrow>
                      let count0 = add_count c count0 in
                      Inl (s\<lparr> words := (words s)(key \<mapsto> count0) \<rparr>)
                  | None \<Rightarrow>
                      if count0 <s countThreshold s
                      then Inl (s\<lparr> belowThresholdWords := (belowThresholdWords s)(key \<mapsto> count0) \<rparr>)
                      else Inr (s, count0)))
        in case r of
             Inl s' \<Rightarrow> Some (False, s', staging)
           | Inr (s, count0) \<Rightarrow>
               let s = s\<lparr> words := (words s)(key \<mapsto> count0) \<rparr>;
                   s = (if len key > maxDictionaryWordLength s
                        then s\<lparr> maxDictionaryWordLength := len key \<rparr> else s);
                   edits = EditsPrefix s key
               in case staging of
                    Some stg \<Rightarrow>
                      do {
                        stg' \<leftarrow> foldlM (\<lambda>g deleteStr. Add_ss g (GetStringHash s deleteStr) key)
                                  stg edits;
                        Some (True, s, Some stg')
                      }
                  | None \<Rightarrow>
                      Some (True, s\<lparr> deletes := foldl (add_delete s key) (deletes s) edits \<rparr>,
                            None))"

definition CommitStaged :: "SymSpell \<Rightarrow> SuggestionStage \<Rightarrow> SymSpell" where
  "CommitStaged s staging = s\<lparr> deletes := CommitTo staging (deletes s) \<rparr>"


section \<open>Single-term lookup (part_000)\<close>

text \<open>The inner loop of \<open>deleteInSuggestionPrefix\<close>, which advances \<open>j\<close>.\<close>

function skip_chars :: "string \<Rightarrow> int \<Rightarrow> char \<Rightarrow> int \<Rightarrow> int option" where
  "skip_chars sugg suggestionLen delChar j =
     (if j < suggestionLen then
        do {
          c \<leftarrow> at sugg j;
          if delChar \<noteq> c then skip_chars sugg suggestionLen delChar (j + 1) else Some j
        }
      else Some j)"
  by pat_completeness auto
termination
  by (relation "measure (\<lambda>(g, n, c, j). nat (n - j))") auto

declare skip_chars.simps [simp del]

function prefix_chars :: "string \<Rightarrow> int \<Rightarrow> string \<Rightarrow> int \<Rightarrow> int \<Rightarrow> int \<Rightarrow> bool option" where
  "prefix_chars delete deleteLen sugg suggestionLen i j =
     (if i < deleteLen then
        do {
          delChar \<leftarrow> at delete i;
          j \<leftarrow> skip_chars sugg suggestionLen delChar j;
          if j = suggestionLen then Some False
          else prefix_chars delete deleteLen sugg suggestionLen (i + 1) j
        }
      else Some True)"
  by pat_completeness auto
termination
  by (relation "measure (\<lambda>(d, n, g, m, i, j). nat (n - i))") auto

declare prefix_chars.simps [simp del]

definition deleteInSuggestionPrefix :: "SymSpell \<Rightarrow> string \<Rightarrow> int \<Rightarrow> string \<Rightarrow> int
    \<Rightarrow> bool option" where
  "deleteInSuggestionPrefix s delete deleteLen sugg suggestionLen =
     (if deleteLen = 0 then Some True
      else
        let suggestionLen = (if prefixLength s < suggestionLen then prefixLength s
                             else suggestionLen)
        in prefix_chars delete deleteLen sugg suggestionLen 0 0)"

text \<open>
  The local variables of \<open>Lookup\<close> that its loops change. The worklist \<open>candidates\<close> is
  passed on its own, as the part of the slice from \<open>candidatePointer\<close> on.
\<close>

record lookup_state =
  suggestions :: SuggestItems
  hashset1 :: "string set"
  hashset2 :: "string set"
  maxEditDistance2 :: int
  distanceComparer :: DamerauOSA

text \<open>
  The condition of the third branch (\<open>prefixLength - maxEditDistance == candidateLen\<close>),
  with the short-circuit evaluation of \<open>||\<close> and \<open>&&\<close>: \<open>True\<close> means \<open>continue\<close>.
\<close>

definition tail_differs :: "string \<Rightarrow> int \<Rightarrow> string \<Rightarrow> int \<Rightarrow> int \<Rightarrow> bool option" where
  "tail_differs input inputLen sugg suggestionLen minLen =
     do {
       a \<leftarrow> (if minLen > 1 then
               do {
                 x \<leftarrow> slice_from input (inputLen - minLen);
                 y \<leftarrow> slice_from sugg (suggestionLen - minLen);
                 Some (x \<noteq> y)
               }
             else Some False);
       if a then Some True
       else if minLen > 0 then
         do {
           i0 \<leftarrow> at input (inputLen - minLen);
           s0 \<leftarrow> at sugg (suggestionLen - minLen);
           if i0 \<noteq> s0 then
             do {
               i1 \<leftarrow> at input (inputLen - minLen - 1);
               s0' \<leftarrow> at sugg (suggestionLen - minLen);
               if i1 \<noteq> s0' then Some True
               else
                 do {
                   i0' \<leftarrow> at input (inputLen - minLen);
                   s1 \<leftarrow> at sugg (suggestionLen - minLen - 1);
                   Some (i0' \<noteq> s1)
                 }
             }
           else Some False
         }
       else Some False
     }"

text \<open>
  The four branches that set \<open>distance\<close> for one suggestion of a bucket. The result
  \<open>(None, st)\<close> stands for \<open>continue\<close>, \<open>(Some distance, st)\<close> for reaching the
  admission below.
\<close>

definition suggestion_distance :: "SymSpell \<Rightarrow> string \<Rightarrow> Verbosity \<Rightarrow> int \<Rightarrow> string
    \<Rightarrow> lookup_state \<Rightarrow> string \<Rightarrow> (int option \<times> lookup_state) option" where
  "suggestion_distance s input verbosity maxEditDistance candidate st sugg =
     (let inputLen = len input; candidateLen = len candidate; suggestionLen = len sugg in
      if candidateLen = 0 then
        let distance = max inputLen suggestionLen in
        if distance > maxEditDistance2 st then Some (None, st)
        else
          let (added, h2) = addToSet (hashset2 st) sugg; st = st\<lparr> hashset2 := h2 \<rparr> in
          if \<not> added then Some (None, st) else Some (Some distance, st)
      else if suggestionLen = 1 then
        do {
          c \<leftarrow> at sugg 0;
          let distance = (if \<not> ContainsRune input (byte c) then inputLen else inputLen - 1);
          if distance > maxEditDistance2 st then Some (None, st)
          else
            let (added, h2) = addToSet (hashset2 st) sugg; st = st\<lparr> hashset2 := h2 \<rparr> in
            if \<not> added then Some (None, st) else Some (Some distance, st)
        }
      else if prefixLength s - maxEditDistance = candidateLen then
        do {
          let minLen = min inputLen suggestionLen - prefixLength s;
          differs \<leftarrow> tail_differs input inputLen sugg suggestionLen minLen;
          if differs then Some (None, st) else Some (Some 0, st)
        }
      else
        do {
          inPrefix \<leftarrow> (if verbosity \<noteq> AllV
                       then deleteInSuggestionPrefix s candidate candidateLen sugg suggestionLen
                       else Some True);
          if \<not> inPrefix then Some (None, st)
          else
            let (added, h2) = addToSet (hashset2 st) sugg; st = st\<lparr> hashset2 := h2 \<rparr> in
            if \<not> added then Some (None, st)
            else
              do {
                (distance, dc) \<leftarrow> Compare (distanceComparer st) input sugg (maxEditDistance2 st);
                let st = st\<lparr> distanceComparer := dc \<rparr>;
                if distance < 0 then Some (None, st) else Some (Some distance, st)
              }
        })"

text \<open>The admission of a suggestion with its distance (\<open>if distance <= maxEditDistance2\<close>).\<close>

definition admit :: "SymSpell \<Rightarrow> Verbosity \<Rightarrow> lookup_state \<Rightarrow> string \<Rightarrow> int \<Rightarrow> lookup_state" where
  "admit s verbosity st sugg distance0 =
     (if distance0 \<le> maxEditDistance2 st then
        let suggestionCount = (case words s sugg of Some c \<Rightarrow> c | None \<Rightarrow> 0);
            si = \<lparr> term_si = sugg, distance = distance0, count = suggestionCount \<rparr>
        in case (suggestions st, verbosity) of
             (s0 # rest, Closest) \<Rightarrow>
               let st = (if distance0 < maxEditDistance2 st then st\<lparr> suggestions := [] \<rparr> else st);
                   st = st\<lparr> maxEditDistance2 := distance0 \<rparr>
               in st\<lparr> suggestions := suggestions st @ [si] \<rparr>
           | (s0 # rest, Top) \<Rightarrow>
               if distance0 < maxEditDistance2 st \<or> count s0 <s suggestionCount
               then st\<lparr> maxEditDistance2 := distance0, suggestions := si # rest \<rparr>
               else st
           | _ \<Rightarrow>
               let st = (if verbosity \<noteq> AllV then st\<lparr> maxEditDistance2 := distance0 \<rparr> else st)
               in st\<lparr> suggestions := suggestions st @ [si] \<rparr>
      else st)"

text \<open>The body of the loop \<open>for suggestion := range dictSuggestions\<close>.\<close>

definition lookup_suggestion :: "SymSpell \<Rightarrow> string \<Rightarrow> Verbosity \<Rightarrow> int \<Rightarrow> string \<Rightarrow> int
    \<Rightarrow> lookup_state \<Rightarrow> string \<Rightarrow> lookup_state option" where
  "lookup_suggestion s input verbosity maxEditDistance candidate inputPrefixLen st sugg =
     (let inputLen = len input; candidateLen = len candidate; suggestionLen = len sugg in
      if sugg = input then Some st
      else if \<bar>suggestionLen - inputLen\<bar> > maxEditDistance2 st \<or> suggestionLen < candidateLen
              \<or> (suggestionLen = candidateLen \<and> sugg \<noteq> candidate) then Some st
      else
        let suggPrefixLen = min suggestionLen (prefixLength s) in
        if suggPrefixLen > inputPrefixLen \<and> suggPrefixLen - candidateLen > maxEditDistance2 st
        then Some st
        else
          do {
            (d, st) \<leftarrow> suggestion_distance s input verbosity maxEditDistance candidate st sugg;
            case d of
              None \<Rightarrow> Some st
            | Some distance0 \<Rightarrow> Some (admit s verbosity st sugg distance0)
          })"

text \<open>The loop that derives the deletes of a candidate and appends the new ones.\<close>

function expand :: "string \<Rightarrow> int \<Rightarrow> string set \<Rightarrow> string list \<Rightarrow> string set \<times> string list" where
  "expand candidate i hs1 candidates =
     (if i < len candidate then
        let delete = take (nat i) candidate @ drop (nat (i + 1)) candidate in
        if delete \<notin> hs1 then expand candidate (i + 1) (insert delete hs1) (candidates @ [delete])
        else expand candidate (i + 1) hs1 candidates
      else (hs1, candidates))"
  by pat_completeness auto
termination
  by (relation "measure (\<lambda>(c, i, h, q). nat (len c - i))") auto

declare expand.simps [simp del]

text \<open>
  The size of the tree of all deletes of a string of length \<open>n\<close>: it bounds the number
  of iterations the worklist loop still has to make for a candidate of that length.
\<close>

fun tree_size :: "nat \<Rightarrow> nat" where
  "tree_size 0 = 1"
| "tree_size (Suc n) = 1 + Suc n * tree_size n"

lemma tree_size_pos [simp]: "0 < tree_size n"
  by (cases n) simp_all

definition work :: "string list \<Rightarrow> nat" where
  "work candidates = sum_list (map (\<lambda>c. tree_size (length c)) candidates)"

lemma work_expand:
  "0 \<le> i \<Longrightarrow> work (snd (expand candidate i hs1 candidates))
     \<le> work candidates + nat (len candidate - i) * tree_size (length candidate - 1)"
proof (induction candidate i hs1 candidates rule: expand.induct)
  case (1 candidate i hs1 candidates)
  show ?case
  proof (cases "i < len candidate")
    case False
    then show ?thesis by (subst expand.simps) simp
  next
    case True
    let ?d = "take (nat i) candidate @ drop (nat (i + 1)) candidate"
    have ld: "length ?d = length candidate - 1"
      using True "1.prems" by (auto simp: len_def)
    have step: "nat (len candidate - i) = Suc (nat (len candidate - (i + 1)))"
      using True by simp
    show ?thesis
    proof (cases "?d \<in> hs1")
      case True
      with \<open>i < len candidate\<close> "1.IH"(2) [OF \<open>i < len candidate\<close> refl] "1.prems" step
      show ?thesis by (subst expand.simps) (simp add: Let_def)
    next
      case False
      have "work (candidates @ [?d]) = work candidates + tree_size (length candidate - 1)"
        using ld by (simp add: work_def)
      with False \<open>i < len candidate\<close> "1.IH"(1) [OF \<open>i < len candidate\<close> refl] "1.prems" step
      show ?thesis by (subst expand.simps) (simp add: Let_def)
    qed
  qed
qed

lemma work_expand_less:
  "work (snd (expand candidate 0 hs1 candidates)) < work (candidate # candidates)"
proof (cases candidate)
  case Nil
  then show ?thesis by (subst expand.simps) (simp add: work_def len_def)
next
  case (Cons c cs)
  have "work (snd (expand candidate 0 hs1 candidates))
          \<le> work candidates + length candidate * tree_size (length candidate - 1)"
    using work_expand [of 0 candidate hs1 candidates] by (simp add: len_def)
  also have "\<dots> < work (candidate # candidates)"
    using Cons by (simp add: work_def)
  finally show ?thesis .
qed

text \<open>
  The loop \<open>for candidatePointer < len(candidates)\<close>: one candidate is taken from the
  front of the worklist, its bucket is scanned, and its deletes are appended.
\<close>

function candidates_loop :: "SymSpell \<Rightarrow> string \<Rightarrow> Verbosity \<Rightarrow> int \<Rightarrow> int \<Rightarrow> string list
    \<Rightarrow> lookup_state \<Rightarrow> lookup_state option" where
  "candidates_loop s input verbosity maxEditDistance inputPrefixLen [] st = Some st"
| "candidates_loop s input verbosity maxEditDistance inputPrefixLen (candidate # candidates) st =
     (let candidateLen = len candidate;
          lengthDiff = inputPrefixLen - candidateLen
      in
      if lengthDiff > maxEditDistance2 st then
        (if verbosity = AllV
         then candidates_loop s input verbosity maxEditDistance inputPrefixLen candidates st
         else Some st)
      else
        do {
          st \<leftarrow> (case deletes s (GetStringHash s candidate) of
                   Some dictSuggestions \<Rightarrow>
                     foldlM (lookup_suggestion s input verbosity maxEditDistance candidate
                               inputPrefixLen) st dictSuggestions
                 | None \<Rightarrow> Some st);
          if lengthDiff < maxEditDistance \<and> candidateLen \<le> prefixLength s then
            if verbosity \<noteq> AllV \<and> lengthDiff \<ge> maxEditDistance2 st
            then candidates_loop s input verbosity maxEditDistance inputPrefixLen candidates st
            else
              candidates_loop s input verbosity maxEditDistance inputPrefixLen
                (snd (expand candidate 0 (hashset1 st) candidates))
                (st\<lparr> hashset1 := fst (expand candidate 0 (hashset1 st) candidates) \<rparr>)
          else candidates_loop s input verbosity maxEditDistance inputPrefixLen candidates st
        })"
  by pat_completeness auto
termination
proof (relation "measure (\<lambda>(s, input, v, m, p, candidates, st). work candidates)")
  show "wf (measure (\<lambda>(s, input, v, m, p, candidates, st). work candidates))"
    by simp
qed (simp_all add: work_expand_less, simp_all add: work_def)

text \<open>The removal of later duplicates by term, after the sort.\<close>

fun unique_terms :: "string set \<Rightarrow> SuggestItems \<Rightarrow> SuggestItems" where
  "unique_terms seen [] = []"
| "unique_terms seen (x # xs) =
     (if term_si x \<in> seen then unique_terms seen xs
      else x # unique_terms (insert (term_si x) seen) xs)"

text \<open>
  \<open>Lookup\<close>. Its first argument stands for \<open>sort.Sort\<close> of the Go library on
  \<open>SuggestItems\<close>. The panic of the first statement is the result \<open>None\<close>; the three
  \<open>goto end\<close> skip the loop and the sort.
\<close>

definition Lookup :: "(SuggestItems \<Rightarrow> SuggestItems) \<Rightarrow> SymSpell \<Rightarrow> string \<Rightarrow> Verbosity \<Rightarrow> int
    \<Rightarrow> bool \<Rightarrow> SuggestItems option" where
  "Lookup sort_Sort s input verbosity maxEditDistance includeUnknown =
     (if maxEditDistance > maxDictionaryEditDistance s then None
      else
        do {
          let inputLen = len input;
          let st = \<lparr> suggestions = [], hashset1 = {}, hashset2 = {},
                     maxEditDistance2 = maxEditDistance,
                     distanceComparer = NewDistanceComparer \<rparr>;
          let inputPrefixLen = inputLen;
          found \<leftarrow>
            (if inputLen - maxEditDistance > maxDictionaryWordLength s then Some []
             else
               let st = (case words s input of
                           Some suggestionCount \<Rightarrow>
                             st\<lparr> suggestions := suggestions st @
                                  [\<lparr> term_si = input, distance = 0, count = suggestionCount \<rparr>] \<rparr>
                         | None \<Rightarrow> st)
               in
               if words s input \<noteq> None \<and> verbosity \<noteq> AllV then Some (suggestions st)
               else if maxEditDistance = 0 then Some (suggestions st)
               else
                 do {
                   let st = st\<lparr> hashset2 := insert input (hashset2 st) \<rparr>;
                   (inputPrefixLen, candidates) \<leftarrow>
                     (if inputPrefixLen > prefixLength s then
                        do {
                          p \<leftarrow> slice_to input (prefixLength s);
                          Some (prefixLength s, [p])
                        }
                      else Some (inputPrefixLen, [input]));
                   st \<leftarrow> candidates_loop s input verbosity maxEditDistance inputPrefixLen
                           candidates st;
                   Some (if len (suggestions st) > 1
                         then unique_terms {} (sort_Sort (suggestions st))
                         else suggestions st)
                 });
          Some (if includeUnknown \<and> len found = 0
                then found @ [\<lparr> term_si = input, distance = maxEditDistance + 1, count = 0 \<rparr>]
                else found)
        })"

text \<open>
  The insertion sort that \<open>sort.Sort\<close> runs on a short slice: each item in turn moves
  left past the items it is \<open>Less\<close> than. The sorted part is kept with its last item
  first.
\<close>

fun insert_item :: "SuggestItem \<Rightarrow> SuggestItems \<Rightarrow> SuggestItems" where
  "insert_item x [] = [x]"
| "insert_item x (y # ys) = (if Less x y then y # insert_item x ys else x # y # ys)"

definition insertionSort :: "SuggestItems \<Rightarrow> SuggestItems" where
  "insertionSort xs = rev (foldl (\<lambda>sorted x. insert_item x sorted) [] xs)"


section \<open>Compound lookup (part_000)\<close>

text \<open>
  \<open>LookupCompound\<close> computes its counts in \<open>float64\<close> and splits its input with a
  regular expression. These operations of the Go library, and the \<open>float64\<close> field \<open>n\<close>
  of the engine, are parameters of the model: what is proved holds for every
  interpretation of them.
\<close>

record 'f go_lib =
  ToLower :: "string \<Rightarrow> string"
  FindAllString :: "string \<Rightarrow> string list"
  TrimSpace :: "string \<Rightarrow> string"
  n_prior :: 'f
  float64_of_int64 :: "int64 \<Rightarrow> 'f"
  float64_of_int :: "int \<Rightarrow> 'f"
  int64_of_float64 :: "'f \<Rightarrow> int64"
  f_mul :: "'f \<Rightarrow> 'f \<Rightarrow> 'f"
  f_div :: "'f \<Rightarrow> 'f \<Rightarrow> 'f"
  f_less :: "'f \<Rightarrow> 'f \<Rightarrow> bool"
  Pow :: "'f \<Rightarrow> 'f \<Rightarrow> 'f"

definition parseWords :: "'f go_lib \<Rightarrow> string \<Rightarrow> string list" where
  "parseWords lib text = FindAllString lib (ToLower lib text)"

definition maxInt64 :: "int64 \<Rightarrow> int64 \<Rightarrow> int64" where
  "maxInt64 a b = (if b <s a then a else b)"

definition minInt64 :: "int64 \<Rightarrow> int64 \<Rightarrow> int64" where
  "minInt64 a b = (if a <s b then a else b)"

definition MaxInt32 :: int where
  "MaxInt32 = 2147483647"

text \<open>The item for a word without a suggestion: \<open>int64(10 / math.Pow(10, float64(len(term))))\<close>.\<close>

definition unknown_item :: "'f go_lib \<Rightarrow> string \<Rightarrow> int \<Rightarrow> SuggestItem" where
  "unknown_item lib t editDistanceMax =
     \<lparr> term_si = t, distance = editDistanceMax + 1,
       count = int64_of_float64 lib
                 (f_div lib (float64_of_int lib 10)
                    (Pow lib (float64_of_int lib 10) (float64_of_int lib (len t)))) \<rparr>"

text \<open>
  The body of the loop over the split positions \<open>j\<close> of one term. Its state is
  \<open>suggestionSplitBest\<close> (a pointer: \<open>None\<close> is \<open>nil\<close>) and the comparer.
\<close>

definition split_step :: "'f go_lib \<Rightarrow> (SuggestItems \<Rightarrow> SuggestItems) \<Rightarrow> SymSpell \<Rightarrow> int
    \<Rightarrow> string \<Rightarrow> SuggestItems \<Rightarrow> int \<Rightarrow> SuggestItem option \<times> DamerauOSA
    \<Rightarrow> (SuggestItem option \<times> DamerauOSA) option" where
  "split_step lib sort_Sort s editDistanceMax t suggs j st =
     (case st of (suggestionSplitBest, dc) \<Rightarrow>
      do {
        part1 \<leftarrow> slice_to t j;
        part2 \<leftarrow> slice_from t j;
        suggestions1 \<leftarrow> Lookup sort_Sort s part1 Top editDistanceMax False;
        case suggestions1 of
          [] \<Rightarrow> Some (suggestionSplitBest, dc)
        | s1 # _ \<Rightarrow>
            do {
              suggestions2 \<leftarrow> Lookup sort_Sort s part2 Top editDistanceMax False;
              case suggestions2 of
                [] \<Rightarrow> Some (suggestionSplitBest, dc)
              | s2 # _ \<Rightarrow>
                  do {
                    let split_term = term_si s1 @ '' '' @ term_si s2;
                    (distance2, dc) \<leftarrow> Compare dc t split_term editDistanceMax;
                    let distance2 = (if distance2 < 0 then editDistanceMax + 1 else distance2);
                    if (case suggestionSplitBest of
                          Some best \<Rightarrow> distance2 > distance best | None \<Rightarrow> False)
                    then Some (suggestionSplitBest, dc)
                    else
                      let suggestionSplitBest =
                            (case suggestionSplitBest of
                               Some best \<Rightarrow> if distance2 < distance best then None else Some best
                             | None \<Rightarrow> None);
                          split_count =
                            (case bigrams s split_term of
                               Some bigramCount \<Rightarrow>
                                 (case suggs of
                                    s0 # _ \<Rightarrow>
                                      if term_si s1 @ term_si s2 = t
                                      then maxInt64 bigramCount (count s0 + 2)
                                      else if term_si s1 = term_si s0 \<or> term_si s2 = term_si s0
                                      then maxInt64 bigramCount (count s0 + 1)
                                      else bigramCount
                                  | [] \<Rightarrow>
                                      if term_si s1 @ term_si s2 = t
                                      then maxInt64 bigramCount
                                             (maxInt64 (count s1) (count s2) + 2)
                                      else bigramCount)
                             | None \<Rightarrow>
                                 minInt64 (bigramCountMin s)
                                   (int64_of_float64 lib
                                      (f_mul lib
                                         (f_div lib (float64_of_int64 lib (count s1)) (n_prior lib))
                                         (float64_of_int64 lib (count s2)))));
                          suggestionSplit = \<lparr> term_si = split_term, distance = distance2,
                                              count = split_count \<rparr>
                      in Some (if (case suggestionSplitBest of
                                     None \<Rightarrow> True
                                   | Some best \<Rightarrow> count best <s count suggestionSplit)
                               then Some suggestionSplit else suggestionSplitBest,
                               dc)
                  }
            }
      })"

function split_loop :: "'f go_lib \<Rightarrow> (SuggestItems \<Rightarrow> SuggestItems) \<Rightarrow> SymSpell \<Rightarrow> int
    \<Rightarrow> string \<Rightarrow> SuggestItems \<Rightarrow> int \<Rightarrow> SuggestItem option \<times> DamerauOSA
    \<Rightarrow> (SuggestItem option \<times> DamerauOSA) option" where
  "split_loop lib sort_Sort s editDistanceMax t suggs j st =
     (if j < len t then
        do {
          st' \<leftarrow> split_step lib sort_Sort s editDistanceMax t suggs j st;
          split_loop lib sort_Sort s editDistanceMax t suggs (j + 1) st'
        }
      else Some st)"
  by pat_completeness auto
termination
  by (relation "measure (\<lambda>(l, f, s, e, t, g, j, st). nat (len t - j))") auto

declare split_loop.simps [simp del]

text \<open>The variables of \<open>LookupCompound\<close> that the loop over the terms changes.\<close>

record compound_state =
  suggestionParts :: SuggestItems
  lastCombi :: bool
  comparer :: DamerauOSA

text \<open>
  The combi check at term \<open>i\<close>. The result \<open>Some st'\<close> inside stands for the replaced
  last part and \<open>continue\<close>, \<open>None\<close> inside for falling through.
\<close>

definition combi_check :: "'f go_lib \<Rightarrow> (SuggestItems \<Rightarrow> SuggestItems) \<Rightarrow> SymSpell \<Rightarrow> int
    \<Rightarrow> string list \<Rightarrow> int \<Rightarrow> SuggestItems \<Rightarrow> compound_state \<Rightarrow> compound_state option option" where
  "combi_check lib sort_Sort s editDistanceMax termList1 i suggs st =
     (if i > 0 \<and> \<not> lastCombi st then
        do {
          prev \<leftarrow> at termList1 (i - 1);
          t \<leftarrow> at termList1 i;
          let combinedTerm = prev @ t;
          suggestionsCombi \<leftarrow> Lookup sort_Sort s combinedTerm Top editDistanceMax False;
          case suggestionsCombi of
            [] \<Rightarrow> Some None
          | sc0 # _ \<Rightarrow>
              do {
                best1 \<leftarrow> at (suggestionParts st) (len (suggestionParts st) - 1);
                let best2 = (case suggs of s0 # _ \<Rightarrow> s0
                             | [] \<Rightarrow> unknown_item lib t editDistanceMax);
                let distance1 = distance best1 + distance best2;
                if distance1 \<ge> 0 \<and>
                   (distance sc0 + 1 < distance1 \<or>
                    (distance sc0 + 1 = distance1 \<and>
                     f_less lib
                       (f_mul lib (f_div lib (float64_of_int64 lib (count best1)) (n_prior lib))
                          (float64_of_int64 lib (count best2)))
                       (float64_of_int64 lib (count sc0))))
                then
                  do {
                    let sc0 = sc0\<lparr> distance := distance sc0 + 1 \<rparr>;
                    parts \<leftarrow> store (suggestionParts st) (len (suggestionParts st) - 1) sc0;
                    Some (Some (st\<lparr> suggestionParts := parts, lastCombi := True \<rparr>))
                  }
                else Some None
              }
        }
      else Some None)"

text \<open>The body of the loop over the terms.\<close>

definition compound_step :: "'f go_lib \<Rightarrow> (SuggestItems \<Rightarrow> SuggestItems) \<Rightarrow> SymSpell \<Rightarrow> int
    \<Rightarrow> string list \<Rightarrow> int \<Rightarrow> compound_state \<Rightarrow> compound_state option" where
  "compound_step lib sort_Sort s editDistanceMax termList1 i st =
     do {
       t \<leftarrow> at termList1 i;
       suggs \<leftarrow> Lookup sort_Sort s t Top editDistanceMax False;
       combi \<leftarrow> combi_check lib sort_Sort s editDistanceMax termList1 i suggs st;
       case combi of
         Some st' \<Rightarrow> Some st'
       | None \<Rightarrow>
           do {
             let st = st\<lparr> lastCombi := False \<rparr>;
             case suggs of
               s0 # _ \<Rightarrow>
                 if distance s0 = 0 \<or> len t = 1
                 then Some (st\<lparr> suggestionParts := suggestionParts st @ [s0] \<rparr>)
                 else
                   if len t > 1 then
                     do {
                       (best, dc) \<leftarrow> split_loop lib sort_Sort s editDistanceMax t suggs 1
                                       (Some s0, comparer st);
                       let st = st\<lparr> comparer := dc \<rparr>;
                       Some (case best of
                               Some b \<Rightarrow> st\<lparr> suggestionParts := suggestionParts st @ [b] \<rparr>
                             | None \<Rightarrow>
                                 st\<lparr> suggestionParts := suggestionParts st @
                                      [unknown_item lib t editDistanceMax] \<rparr>)
                     }
                   else Some (st\<lparr> suggestionParts := suggestionParts st @
                                     [unknown_item lib t editDistanceMax] \<rparr>)
             | [] \<Rightarrow>
                 if len t > 1 then
                   do {
                     (best, dc) \<leftarrow> split_loop lib sort_Sort s editDistanceMax t suggs 1
                                     (None, comparer st);
                     let st = st\<lparr> comparer := dc \<rparr>;
                     Some (case best of
                             Some b \<Rightarrow> st\<lparr> suggestionParts := suggestionParts st @ [b] \<rparr>
                           | None \<Rightarrow>
                               st\<lparr> suggestionParts := suggestionParts st @
                                    [unknown_item lib t editDistanceMax] \<rparr>)
                   }
                 else Some (st\<lparr> suggestionParts := suggestionParts st @
                                   [unknown_item lib t editDistanceMax] \<rparr>)
           }
     }"

function compound_loop :: "'f go_lib \<Rightarrow> (SuggestItems \<Rightarrow> SuggestItems) \<Rightarrow> SymSpell \<Rightarrow> int
    \<Rightarrow> string list \<Rightarrow> int \<Rightarrow> compound_state \<Rightarrow> compound_state option" where
  "compound_loop lib sort_Sort s editDistanceMax termList1 i st =
     (if i < len termList1 then
        do {
          st' \<leftarrow> compound_step lib sort_Sort s editDistanceMax termList1 i st;
          compound_loop lib sort_Sort s editDistanceMax termList1 (i + 1) st'
        }
      else Some st)"
  by pat_completeness auto
termination
  by (relation "measure (\<lambda>(l, f, s, e, ts, i, st). nat (len ts - i))") auto

declare compound_loop.simps [simp del]

text \<open>The composition of the sentence from the parts.\<close>

definition LookupCompound :: "'f go_lib \<Rightarrow> (SuggestItems \<Rightarrow> SuggestItems) \<Rightarrow> SymSpell \<Rightarrow> string
    \<Rightarrow> int \<Rightarrow> SuggestItems option" where
  "LookupCompound lib sort_Sort s input editDistanceMax =
     do {
       let termList1 = parseWords lib input;
       st \<leftarrow> compound_loop lib sort_Sort s editDistanceMax termList1 0
               \<lparr> suggestionParts = [], lastCombi = False, comparer = NewDistanceComparer \<rparr>;
       let sb = concat (map (\<lambda>si. term_si si @ '' '') (suggestionParts st));
       let cnt = foldl (\<lambda>c si. f_mul lib c (f_div lib (float64_of_int64 lib (count si))
                                              (n_prior lib)))
                   (n_prior lib) (suggestionParts st);
       let composed = TrimSpace lib sb;
       (d, dc) \<leftarrow> Compare (comparer st) input composed MaxInt32;
       Some [\<lparr> term_si = composed, distance = d, count = int64_of_float64 lib cnt \<rparr>]
     }"

section \<open>What the claims speak of\<close>

text \<open>
  The Damerau-OSA distance of the specification: insertion, deletion, substitution and
  the transposition of two adjacent items cost 1 each, and no item takes part in two
  edits.
\<close>

fun osa :: "'a list \<Rightarrow> 'a list \<Rightarrow> nat" where
  "osa [] ys = length ys"
| "osa (x # xs) [] = Suc (length xs)"
| "osa (x # xs) (y # ys) =
     (let m = min ((if x = y then 0 else 1) + osa xs ys)
                (min (1 + osa xs (y # ys)) (1 + osa (x # xs) ys))
      in case (xs, ys) of
           (x' # xs', y' # ys') \<Rightarrow> if x = y' \<and> x' = y then min m (1 + osa xs' ys') else m
         | _ \<Rightarrow> m)"

declare osa.simps(3) [simp del]

text \<open>The strings that \<open>k\<close> deletions of one character each make of a string.\<close>

definition del1 :: "'a list \<Rightarrow> 'a list list" where
  "del1 w = map (\<lambda>i. take i w @ drop (Suc i) w) [0..<length w]"

fun deletions :: "nat \<Rightarrow> 'a list \<Rightarrow> 'a list list" where
  "deletions 0 w = [w]"
| "deletions (Suc k) w = concat (map del1 (deletions k w))"

text \<open>The window of \<open>EditsPrefix\<close>: the key cut to its first \<open>prefixLength\<close> bytes.\<close>

definition truncated :: "SymSpell \<Rightarrow> string \<Rightarrow> string" where
  "truncated s key = (if len key > prefixLength s then take (nat (prefixLength s)) key else key)"

text \<open>The order of section 4.H: by distance ascending, then by count descending.\<close>

definition ordered :: "SuggestItem \<Rightarrow> SuggestItem \<Rightarrow> bool" where
  "ordered a b = (distance a < distance b \<or> (distance a = distance b \<and> count b \<le>s count a))"

text \<open>
  What the Go library promises of \<open>sort.Sort\<close>: the result is a rearrangement of the
  slice in which no later item is \<open>Less\<close> than an earlier one. It does not promise to
  keep the order of items neither of which is \<open>Less\<close> than the other.
\<close>

definition sorts :: "(SuggestItems \<Rightarrow> SuggestItems) \<Rightarrow> bool" where
  "sorts sort_Sort =
     (\<forall>xs. mset (sort_Sort xs) = mset xs \<and> sorted_wrt (\<lambda>a b. \<not> Less b a) (sort_Sort xs))"

text \<open>
  The engines that a program can hold: one made by \<open>NewSymSpell\<close>, after any number of
  calls of \<open>CreateDictionaryEntry\<close>, with or without a staging structure.
\<close>

inductive built :: "SymSpell \<Rightarrow> bool" where
  new: "NewSymSpell c m p t l = Inr s \<Longrightarrow> built s"
| entry: "built s \<Longrightarrow> CreateDictionaryEntry s key cnt staging = Some (b, s', staging')
           \<Longrightarrow> built s'"

text \<open>
  Engines for the examples: \<open>NewSymSpell(16, m, p, t, 5)\<close>, and an engine after
  \<open>CreateDictionaryEntry(key, c, nil)\<close>.
\<close>

definition engine :: "int \<Rightarrow> int \<Rightarrow> int64 \<Rightarrow> SymSpell" where
  "engine m p t = projr (NewSymSpell 16 m p t 5)"

definition with_entry :: "SymSpell \<Rightarrow> string \<Rightarrow> int64 \<Rightarrow> SymSpell" where
  "with_entry s key c =
     (case CreateDictionaryEntry s key c None of Some (b, s', g) \<Rightarrow> s' | None \<Rightarrow> s)"

section \<open>Engines of the examples\<close>

lemma built_engine: "\<not> isl (NewSymSpell 16 m p t 5) \<Longrightarrow> built (engine m p t)"
  by (rule built.new [of 16 m p t 5]) (simp add: engine_def)

lemma built_with_entry: "built s \<Longrightarrow> built (with_entry s key c)"
  by (auto simp: with_entry_def intro: built.entry split: option.splits)

lemma built_engine_2_7_1: "built (engine 2 7 1)"
  by (rule built_engine) code_simp

section \<open>The deletes generator\<close>

lemma del1_mem: "i < length w \<Longrightarrow> take i w @ drop (Suc i) w \<in> set (del1 w)"
  by (auto simp: del1_def)

lemma deletions_step:
  "x \<in> set (deletions k w) \<Longrightarrow> y \<in> set (del1 x) \<Longrightarrow> y \<in> set (deletions (Suc k) w)"
  by auto

definition variants :: "int \<Rightarrow> string \<Rightarrow> string set" where
  "variants m w0 = {d. \<exists>j. int j \<le> max 1 m \<and> d \<in> set (deletions j w0)}"

text \<open>
  The loop of \<open>Edits\<close> on a word that \<open>k\<close> deletions made of \<open>w0\<close>, at depth \<open>k + 1\<close>,
  adds strings that at most \<open>max 1 m\<close> deletions make of \<open>w0\<close>. The induction follows
  the recursion of the loop; the nested call works on \<open>deleteStr\<close> one level deeper.
\<close>

lemma Edits_loop_variants:
  "word \<in> set (deletions k w0) \<Longrightarrow> ed = int k + 1 \<Longrightarrow> ed \<le> max 1 m \<Longrightarrow> 0 \<le> i
   \<Longrightarrow> set dw \<subseteq> A \<union> variants m w0
   \<Longrightarrow> set (Edits_loop m word ed i dw) \<subseteq> A \<union> variants m w0"
proof (induction m word ed i dw arbitrary: k rule: Edits_loop.induct)
  case (1 maxDED word editDistance i deleteWords)
  show ?case
  proof (cases "i < len word")
    case False
    then show ?thesis using "1.prems" by (subst Edits_loop.simps) simp
  next
    case True
    define deleteStr where "deleteStr = take (nat i) word @ drop (nat (i + 1)) word"
    have "deleteStr \<in> set (del1 word)"
      using True "1.prems"(4) del1_mem [of "nat i" word]
      by (simp add: deleteStr_def len_def nat_add_distrib)
    with "1.prems"(1) have ds: "deleteStr \<in> set (deletions (Suc k) w0)"
      by (rule deletions_step)
    have dv: "deleteStr \<in> variants maxDED w0"
      using ds "1.prems"(2,3) by (auto simp: variants_def intro!: exI [of _ "Suc k"])
    have i1: "0 \<le> i + 1" using "1.prems"(4) by simp
    show ?thesis
    proof (cases "deleteStr \<in> set deleteWords")
      case True
      have "set (Edits_loop maxDED word editDistance (i + 1) deleteWords)
              \<subseteq> A \<union> variants maxDED w0"
        using "1.IH"(3) [OF \<open>i < len word\<close> deleteStr_def _ "1.prems"(1,2,3) i1 "1.prems"(5)] True
        by simp
      then show ?thesis
        using True \<open>i < len word\<close>
        by (subst Edits_loop.simps) (simp add: deleteStr_def [symmetric] Let_def)
    next
      case False
      define xa where "xa = deleteWords @ [deleteStr]"
      define xb where "xb = (if editDistance < maxDED
          then if 1 < len deleteStr then Edits_loop maxDED deleteStr (editDistance + 1) 0 xa
               else xa
          else xa)"
      have xa: "set xa \<subseteq> A \<union> variants maxDED w0"
        using dv "1.prems"(5) by (auto simp: xa_def)
      have xb: "set xb \<subseteq> A \<union> variants maxDED w0"
      proof (cases "editDistance < maxDED \<and> 1 < len deleteStr")
        case True
        then have e: "editDistance + 1 = int (Suc k) + 1" "editDistance + 1 \<le> max 1 maxDED"
          using "1.prems"(2) by auto
        have "set (Edits_loop maxDED deleteStr (editDistance + 1) 0 xa)
                \<subseteq> A \<union> variants maxDED w0"
          using "1.IH"(1) [OF \<open>i < len word\<close> deleteStr_def _ xa_def _ _ ds e _ xa] False True
          by simp
        then show ?thesis using True by (simp add: xb_def)
      next
        case False
        then show ?thesis using xa by (auto simp: xb_def)
      qed
      have "set (Edits_loop maxDED word editDistance (i + 1) xb) \<subseteq> A \<union> variants maxDED w0"
        using "1.IH"(2) [OF \<open>i < len word\<close> deleteStr_def _ xa_def xb_def "1.prems"(1,2,3) i1 xb]
          False
        by simp
      then show ?thesis
        using False \<open>i < len word\<close>
        by (subst Edits_loop.simps)
           (simp add: deleteStr_def [symmetric] Let_def xa_def [symmetric] xb_def [symmetric])
    qed
  qed
qed

lemma EditsPrefix_variants:
  assumes "d \<in> set (EditsPrefix s key)"
  shows "(d = [] \<and> len key \<le> maxDictionaryEditDistance s)
         \<or> d \<in> variants (maxDictionaryEditDistance s) (truncated s key)"
proof -
  let ?m = "maxDictionaryEditDistance s"
  let ?A = "if len key \<le> ?m then {[]} else {}"
  define hs where "hs = add_str (if len key \<le> ?m then add_str [] [] else []) (truncated s key)"
  have t: "truncated s key \<in> variants ?m (truncated s key)"
    by (auto simp: variants_def intro!: exI [of _ 0])
  have hs: "set hs \<subseteq> ?A \<union> variants ?m (truncated s key)"
    using t by (auto simp: hs_def add_str_def)
  have "set (Edits s (truncated s key) 0 hs) \<subseteq> ?A \<union> variants ?m (truncated s key)"
    unfolding Edits_def Let_def
    using Edits_loop_variants [of "truncated s key" 0 "truncated s key" 1 ?m 0 hs ?A] hs
    by auto
  moreover have "EditsPrefix s key = Edits s (truncated s key) 0 hs"
    by (simp add: EditsPrefix_def truncated_def hs_def Let_def)
  ultimately show ?thesis using assms by (auto split: if_splits)
qed

text \<open>
  C6, as the code has it. Every string of \<open>EditsPrefix(key)\<close> is the empty string, when
  \<open>len(key) \<le> maxDictionaryEditDistance\<close>, or is made of the key cut to \<open>prefixLength\<close>
  bytes by \<open>j\<close> deletions of one character each, with \<open>j\<close> at most
  \<open>max(1, maxDictionaryEditDistance)\<close> (\<open>j = 0\<close> is the cut key itself). The bound is not
  \<open>maxDictionaryEditDistance\<close>: \<open>Edits\<close> adds the strings of one deletion before it
  compares the depth with \<open>maxDictionaryEditDistance\<close>.
\<close>

theorem EditsPrefix_deletions:
  "d \<in> set (EditsPrefix s key) \<Longrightarrow>
     (d = [] \<and> len key \<le> maxDictionaryEditDistance s)
     \<or> (\<exists>j. int j \<le> max 1 (maxDictionaryEditDistance s)
              \<and> d \<in> set (deletions j (truncated s key)))"
  using EditsPrefix_variants [of d s key] by (simp add: variants_def)

theorem EditsPrefix_deletions_witness:
  "''i'' \<in> set (EditsPrefix (engine 2 3 1) ''pipe'')
   \<and> ((''i'' = [] \<and> len ''pipe'' \<le> maxDictionaryEditDistance (engine 2 3 1))
       \<or> (\<exists>j. int j \<le> max 1 (maxDictionaryEditDistance (engine 2 3 1))
                \<and> ''i'' \<in> set (deletions j (truncated (engine 2 3 1) ''pipe''))))"
proof -
  have h: "''i'' \<in> set (EditsPrefix (engine 2 3 1) ''pipe'')"
    by code_simp
  show ?thesis using h EditsPrefix_deletions [OF h] by simp
qed

text \<open>
  C6 as stated fails when \<open>maxDictionaryEditDistance = 0\<close>: for the key \<open>ab\<close> the engine
  generates \<open>b\<close> and \<open>a\<close>, which no 0 deletions make of \<open>ab\<close>.
\<close>

theorem EditsPrefix_depth_zero_counterexample:
  "maxDictionaryEditDistance (engine 0 3 1) = 0
   \<and> EditsPrefix (engine 0 3 1) ''ab'' = [''ab'', ''b'', ''a'']
   \<and> deletions 0 (truncated (engine 0 3 1) ''ab'') = [''ab'']"
  by code_simp

section \<open>The frequency map\<close>

lemma sint_MaxInt64: "sint MaxInt64 = 9223372036854775807"
  by (simp add: MaxInt64_def)

lemma add_count_ge:
  assumes "0 \<le>s c" "0 \<le>s x"
  shows "c \<le>s add_count c x"
proof -
  have c: "0 \<le> sint c" "sint c < 9223372036854775808"
    using assms(1) sint_lt [of c] by (simp_all add: word_sle_eq)
  have x: "0 \<le> sint x" "sint x < 9223372036854775808"
    using assms(2) sint_lt [of x] by (simp_all add: word_sle_eq)
  have d: "sint (MaxInt64 - c) = 9223372036854775807 - sint c"
    using c by (simp add: sint_word_ariths sint_MaxInt64 signed_take_bit_int_eq_self)
  show ?thesis
  proof (cases "x <s MaxInt64 - c")
    case True
    then have "sint x + sint c < 9223372036854775808"
      using d by (simp add: word_sless_alt)
    then have "sint (x + c) = sint x + sint c"
      using c x by (simp add: sint_word_ariths signed_take_bit_int_eq_self)
    with True x show ?thesis
      by (simp add: add_count_def word_sle_eq)
  next
    case False
    then show ?thesis
      using c by (simp add: add_count_def word_sle_eq sint_MaxInt64)
  qed
qed

lemma add_count_threshold:
  assumes "0 \<le>s t" "t \<le>s v" "0 \<le>s x"
  shows "t \<le>s add_count v x"
proof -
  have "0 \<le>s v" using assms(1,2) by (simp add: word_sle_eq)
  then have "v \<le>s add_count v x" using assms(3) by (rule add_count_ge)
  with assms(2) show ?thesis by (simp add: word_sle_eq)
qed

definition words_ok :: "SymSpell \<Rightarrow> bool" where
  "words_ok s =
     (0 \<le>s countThreshold s \<and> (\<forall>k v. words s k = Some v \<longrightarrow> countThreshold s \<le>s v))"

text \<open>What one call of \<open>CreateDictionaryEntry\<close> does to \<open>words\<close>.\<close>

lemma CreateDictionaryEntry_words:
  assumes "CreateDictionaryEntry s key c g = Some (b, s', g')"
  shows "countThreshold s' = countThreshold s \<and>
         (words s' = words s
          \<or> (\<exists>v. words s key = Some v
                  \<and> words s' = (words s)(key \<mapsto> add_count v (if c \<le>s 0 then 0 else c)))
          \<or> (\<exists>v. countThreshold s \<le>s v \<and> words s' = (words s)(key \<mapsto> v)))"
  using assms
  by (auto simp: CreateDictionaryEntry_def Let_def signed.not_less
        split: if_splits option.splits sum.splits prod.splits bind_splits)

lemma CreateDictionaryEntry_words_ok:
  assumes "words_ok s" "CreateDictionaryEntry s key c g = Some (b, s', g')"
  shows "words_ok s'"
proof -
  have t: "0 \<le>s countThreshold s"
    and w: "\<And>k v. words s k = Some v \<Longrightarrow> countThreshold s \<le>s v"
    using assms(1) by (auto simp: words_ok_def)
  have x: "0 \<le>s (if c \<le>s 0 then 0 else c)"
    by (auto simp: word_sle_eq)
  from CreateDictionaryEntry_words [OF assms(2)]
  have eq: "countThreshold s' = countThreshold s"
    and cases: "words s' = words s
          \<or> (\<exists>v. words s key = Some v
                  \<and> words s' = (words s)(key \<mapsto> add_count v (if c \<le>s 0 then 0 else c)))
          \<or> (\<exists>v. countThreshold s \<le>s v \<and> words s' = (words s)(key \<mapsto> v))"
    by auto
  from cases show ?thesis
  proof (elim disjE exE conjE)
    assume "words s' = words s"
    then show ?thesis using t w eq by (simp add: words_ok_def)
  next
    fix v assume v: "words s key = Some v"
      and s': "words s' = (words s)(key \<mapsto> add_count v (if c \<le>s 0 then 0 else c))"
    have "countThreshold s \<le>s add_count v (if c \<le>s 0 then 0 else c)"
      using t w [OF v] x by (rule add_count_threshold)
    then show ?thesis using t w eq s' by (auto simp: words_ok_def split: if_splits)
  next
    fix v assume "countThreshold s \<le>s v" "words s' = (words s)(key \<mapsto> v)"
    then show ?thesis using t w eq by (simp add: words_ok_def)
  qed
qed

lemma NewSymSpell_words_ok: "NewSymSpell c m p t l = Inr s \<Longrightarrow> words_ok s"
  by (auto simp: NewSymSpell_def words_ok_def word_sle_eq word_sless_alt split: if_splits)

lemma built_words_ok: "built s \<Longrightarrow> words_ok s"
  by (induction rule: built.induct)
     (auto intro: NewSymSpell_words_ok CreateDictionaryEntry_words_ok)

text \<open>
  C7, as the code has it. After every sequence of \<open>CreateDictionaryEntry\<close> calls on an
  engine made by \<open>NewSymSpell\<close>, every value stored in \<open>words\<close> is at least
  \<open>countThreshold\<close>, and so at least 0. With \<open>countThreshold = 0\<close> the bound is 0, not 1.
\<close>

theorem words_at_least_countThreshold:
  "built s \<Longrightarrow> words s k = Some v \<Longrightarrow> countThreshold s \<le>s v \<and> 0 \<le>s v"
proof -
  assume "built s" and v: "words s k = Some v"
  then have "words_ok s" by (simp add: built_words_ok)
  with v have "0 \<le>s countThreshold s" "countThreshold s \<le>s v"
    by (auto simp: words_ok_def)
  then show ?thesis by (simp add: word_sle_eq)
qed

theorem words_at_least_countThreshold_witness:
  "built (with_entry (engine 2 7 1) ''pawn'' 10)
   \<and> words (with_entry (engine 2 7 1) ''pawn'' 10) ''pawn'' = Some 10
   \<and> countThreshold (with_entry (engine 2 7 1) ''pawn'' 10) \<le>s 10 \<and> 0 \<le>s (10 :: int64)"
proof -
  have b: "built (with_entry (engine 2 7 1) ''pawn'' 10)"
    by (rule built_with_entry [OF built_engine_2_7_1])
  have w: "words (with_entry (engine 2 7 1) ''pawn'' 10) ''pawn'' = Some 10"
    by code_simp
  show ?thesis using b w words_at_least_countThreshold [OF b w] by simp
qed

text \<open>
  C7 as stated fails: with \<open>countThreshold = 0\<close>, the call
  \<open>CreateDictionaryEntry("a", 0, nil)\<close> returns \<open>true\<close> and stores the count 0 for \<open>a\<close>.
\<close>

theorem zero_count_installed_counterexample:
  "map_option (\<lambda>(b, s', g). (b, countThreshold s', words s' ''a''))
     (CreateDictionaryEntry (engine 2 7 0) ''a'' 0 None) = Some (True, 0, Some 0)"
  by code_simp


section \<open>The staging structure and the commit\<close>

lemma CreateDictionaryEntry_staged_deletes:
  "CreateDictionaryEntry s key c (Some g) = Some (b, s', g') \<Longrightarrow> deletes s' = deletes s"
  by (auto simp: CreateDictionaryEntry_def Let_def
        split: if_splits option.splits sum.splits prod.splits bind_splits)

text \<open>The chunked store: \<open>count\<close> is within the capacity and every chunk has 4096 nodes.\<close>

definition ca_ok :: "ChunkArrayNode \<Rightarrow> bool" where
  "ca_ok ca = (0 \<le> count_ca ca \<and> count_ca ca \<le> capacity ca
               \<and> (\<forall>c \<in> set (values_ca ca). len c = ChunkSize))"

lemma col_mod: "col index = index mod 4096"
proof -
  have "(4095 :: int) = mask 12" by (simp add: mask_eq_exp_minus_1)
  then have "index AND 4095 = take_bit 12 index"
    by (simp only: take_bit_eq_mask)
  then show ?thesis
    by (simp add: col_def ChunkSize_def take_bit_eq_mod)
qed

lemma row_div: "row index = index div 4096"
  by (simp add: row_def DivShift_def drop_bit_eq_div)

lemma set_update_chunks:
  "\<forall>c \<in> set vs. len c = n \<Longrightarrow> len c' = n \<Longrightarrow> \<forall>c \<in> set (vs[i := c']). len c = n"
  by (metis insertE set_update_subset_insert subsetD)

lemma Add_ca_total:
  assumes "ca_ok ca"
  shows "\<exists>i ca'. Add_ca ca v = Some (i, ca') \<and> ca_ok ca'"
proof -
  define ca1 where "ca1 = (if count_ca ca = capacity ca
                 then ca\<lparr> values_ca := values_ca ca @ [replicate (nat ChunkSize) zeroNode] \<rparr>
                 else ca)"
  have c1: "0 \<le> count_ca ca1" "count_ca ca1 < len (values_ca ca1) * 4096"
    "\<forall>c \<in> set (values_ca ca1). len c = 4096"
    using assms by (auto simp: ca1_def ca_ok_def capacity_def len_def ChunkSize_def)
  define r where "r = row (count_ca ca1)"
  define k where "k = col (count_ca ca1)"
  have r: "0 \<le> r" "r < len (values_ca ca1)"
    using c1(1,2) by (auto simp: r_def row_div)
  have k: "0 \<le> k" "k < 4096"
    by (auto simp: k_def col_mod)
  define chunk where "chunk = values_ca ca1 ! nat r"
  have chunk: "len chunk = 4096"
    using r c1(3) by (simp add: chunk_def len_def)
  have a: "at (values_ca ca1) r = Some chunk"
    using r by (simp add: at_def chunk_def)
  have b: "store chunk k v = Some (chunk[nat k := v])"
    using k chunk by (simp add: store_def)
  have c: "store (values_ca ca1) r (chunk[nat k := v])
             = Some ((values_ca ca1)[nat r := chunk[nat k := v]])"
    using r by (simp add: store_def)
  define ca' where "ca' = ca1\<lparr> values_ca := (values_ca ca1)[nat r := chunk[nat k := v]],
                              count_ca := count_ca ca1 + 1 \<rparr>"
  have "Add_ca ca v = Some (count_ca ca' - 1, ca')"
    unfolding Add_ca_def ca1_def [symmetric] Let_def
    using a b c by (simp add: r_def [symmetric] k_def [symmetric] ca'_def)
  moreover have "ca_ok ca'"
    using c1 chunk set_update_chunks [OF c1(3), of "chunk[nat k := v]" "nat r"]
    by (simp add: ca_ok_def ca'_def capacity_def ChunkSize_def len_def)
  ultimately show ?thesis by blast
qed

lemma Add_ss_total:
  assumes "ca_ok (nodes g)"
  shows "\<exists>g'. Add_ss g h t = Some g' \<and> ca_ok (nodes g')
              \<and> dom (deletes_ss g') = insert h (dom (deletes_ss g))"
proof -
  let ?e = "(case deletes_ss g h of Some e \<Rightarrow> e | None \<Rightarrow> \<lparr> count_e = 0, first = -1 \<rparr>)"
  obtain i ca' where "Add_ca (nodes g) \<lparr> suggestion = t, next_node = first ?e \<rparr> = Some (i, ca')"
    and "ca_ok ca'"
    using Add_ca_total [OF assms] by blast
  then show ?thesis
    by (simp add: Add_ss_def Let_def)
qed

lemma foldlM_Add_ss_total:
  "ca_ok (nodes g) \<Longrightarrow>
   \<exists>g'. foldlM (\<lambda>g d. Add_ss g (H d) t) g ds = Some g' \<and> ca_ok (nodes g')
         \<and> dom (deletes_ss g') = H ` set ds \<union> dom (deletes_ss g)"
proof (induction ds arbitrary: g)
  case Nil
  then show ?case by simp
next
  case (Cons d ds)
  obtain g1 where g1: "Add_ss g (H d) t = Some g1" "ca_ok (nodes g1)"
    "dom (deletes_ss g1) = insert (H d) (dom (deletes_ss g))"
    using Add_ss_total [OF Cons.prems] by blast
  from Cons.IH [OF g1(2)] g1(1,3) show ?case by auto
qed

lemma NewSuggestionStage_ok:
  "0 \<le> n \<Longrightarrow> \<exists>g. NewSuggestionStage n = Some g \<and> ca_ok (nodes g) \<and> deletes_ss g = Map.empty"
  by (auto simp: NewSuggestionStage_def NewChunkArrayNode_def go_div_def ChunkSize_def ca_ok_def
      capacity_def len_def Let_def sgn_if)


text \<open>The engine after \<open>CreateDictionaryEntry("a", 1, stage)\<close> on \<open>engine 2 7 1\<close>.\<close>

definition staged_a :: SymSpell where
  "staged_a = (engine 2 7 1)\<lparr> words := [''a'' \<mapsto> 1], maxDictionaryWordLength := 1 \<rparr>"

lemma engine_2_7_1: "engine 2 7 1 =
  \<lparr>initialCapacity = 16, maxDictionaryEditDistance = 2, prefixLength = 7,
        countThreshold = 1, compactMask = 67108860,
        maxDictionaryWordLength = 0, deletes = \<lambda>x. None, words = \<lambda>x. None,
        belowThresholdWords = \<lambda>x. None, bigrams = \<lambda>x. None,
        bigramCountMin = 9223372036854775807\<rparr>"
  by (simp add: engine_def NewSymSpell_def word_sless_alt MaxInt64_def)

lemma staged_call:
  "CreateDictionaryEntry (engine 2 7 1) ''a'' 1 (Some g) =
     foldlM (\<lambda>g d. Add_ss g (GetStringHash staged_a d) ''a'') g (EditsPrefix staged_a ''a'')
       \<bind> (\<lambda>stg'. Some (True, staged_a, Some stg'))"
  by (simp add: CreateDictionaryEntry_def Let_def engine_2_7_1 staged_a_def
        word_sle_eq word_sless_alt len_def)

text \<open>
  C2 fails on the code. \<open>LoadDictionaryFromReader\<close> makes a stage with
  \<open>NewSuggestionStage(16384)\<close>, calls \<open>CreateDictionaryEntry\<close> with it and commits.
  For the one entry \<open>a\<close>: the call returns \<open>true\<close>, \<open>a\<close> is in \<open>words\<close>, \<open>a\<close> is in
  \<open>EditsPrefix(a)\<close> and its hash is staged, but after \<open>CommitStaged\<close> the bucket of that
  hash does not exist, and \<open>Lookup\<close> of \<open>b\<close> within distance 1 finds nothing.
\<close>

theorem staged_entry_not_committed:
  "case NewSuggestionStage 16384 of
     Some g \<Rightarrow>
       (case CreateDictionaryEntry (engine 2 7 1) ''a'' 1 (Some g) of
          Some (b, s', Some g') \<Rightarrow>
            b \<and> words (CommitStaged s' g') ''a'' = Some 1
            \<and> ''a'' \<in> set (EditsPrefix s' ''a'')
            \<and> GetStringHash s' ''a'' \<in> dom (deletes_ss g')
            \<and> deletes (CommitStaged s' g') (GetStringHash s' ''a'') = None
            \<and> Lookup insertionSort (CommitStaged s' g') ''b'' AllV 1 False = Some []
        | _ \<Rightarrow> False)
   | None \<Rightarrow> False"
proof -
  obtain g where g: "NewSuggestionStage 16384 = Some g" "ca_ok (nodes g)"
    using NewSuggestionStage_ok [of 16384] by auto
  obtain g' where g': "foldlM (\<lambda>g d. Add_ss g (GetStringHash staged_a d) ''a'') g
                         (EditsPrefix staged_a ''a'') = Some g'"
    and d: "dom (deletes_ss g')
              = GetStringHash staged_a ` set (EditsPrefix staged_a ''a'') \<union> dom (deletes_ss g)"
    using foldlM_Add_ss_total [OF g(2), of "GetStringHash staged_a" "''a''"
        "EditsPrefix staged_a ''a''"] by blast
  have e: "''a'' \<in> set (EditsPrefix staged_a ''a'')"
    by code_simp
  have c: "CommitStaged staged_a g' = staged_a"
    by (simp add: CommitStaged_def CommitTo_def)
  have w: "words staged_a ''a'' = Some 1" "deletes staged_a = Map.empty"
    by (simp_all add: staged_a_def engine_2_7_1)
  have l: "Lookup insertionSort staged_a ''b'' AllV 1 False = Some []"
    by code_simp
  show ?thesis
    using e d by (simp add: g(1) staged_call g' c w l)
qed


section \<open>Buckets hold dictionary terms\<close>

text \<open>Every term in a bucket of \<open>deletes\<close> is a key of \<open>words\<close>.\<close>

definition deletes_ok :: "SymSpell \<Rightarrow> bool" where
  "deletes_ok s = (\<forall>h b. deletes s h = Some b \<longrightarrow> set b \<subseteq> dom (words s))"

lemma foldl_add_delete:
  "foldl (add_delete s key) d edits h = Some b \<Longrightarrow>
     set b \<subseteq> insert key (case d h of None \<Rightarrow> {} | Some b0 \<Rightarrow> set b0)"
proof (induction edits arbitrary: d b)
  case Nil
  then show ?case by auto
next
  case (Cons e edits)
  from Cons.IH [OF Cons.prems [simplified]]
  show ?case
    by (auto simp: add_delete_def add_str_def Let_def split: option.splits if_splits)
qed

text \<open>
  The two halves of \<open>CreateDictionaryEntry\<close>: the bookkeeping of the counts, which ends
  in \<open>return false\<close> (\<open>Inl\<close>) or goes on with the count to store; and the indexing of
  the key.
\<close>

definition threshold_step :: "SymSpell \<Rightarrow> string \<Rightarrow> int64 \<Rightarrow> SymSpell + SymSpell \<times> int64" where
  "threshold_step s key count0 =
              (if 1 <s countThreshold s then
                 (case belowThresholdWords s key of
                    Some c \<Rightarrow>
                      let count0 = add_count c count0 in
                      if countThreshold s \<le>s count0
                      then Inr (s\<lparr> belowThresholdWords := (belowThresholdWords s)(key := None) \<rparr>,
                                count0)
                      else Inl (s\<lparr> belowThresholdWords := (belowThresholdWords s)(key \<mapsto> count0) \<rparr>)
                  | None \<Rightarrow>
                      (case words s key of
                         Some c \<Rightarrow>
                           let count0 = add_count c count0 in
                           Inl (s\<lparr> words := (words s)(key \<mapsto> count0) \<rparr>)
                       | None \<Rightarrow>
                           if count0 <s countThreshold s
                           then Inl (s\<lparr> belowThresholdWords :=
                                          (belowThresholdWords s)(key \<mapsto> count0) \<rparr>)
                           else Inr (s, count0)))
               else
                 (case words s key of
                    Some c \<Rightarrow>
                      let count0 = add_count c count0 in
                      Inl (s\<lparr> words := (words s)(key \<mapsto> count0) \<rparr>)
                  | None \<Rightarrow>
                      if count0 <s countThreshold s
                      then Inl (s\<lparr> belowThresholdWords := (belowThresholdWords s)(key \<mapsto> count0) \<rparr>)
                      else Inr (s, count0)))"

definition index_step :: "SymSpell \<Rightarrow> string \<Rightarrow> int64 \<Rightarrow> SuggestionStage option
    \<Rightarrow> (bool \<times> SymSpell \<times> SuggestionStage option) option" where
  "index_step s0 key count0 staging =
               (let s = s0\<lparr> words := (words s0)(key \<mapsto> count0) \<rparr>;
                   s = (if len key > maxDictionaryWordLength s
                        then s\<lparr> maxDictionaryWordLength := len key \<rparr> else s);
                   edits = EditsPrefix s key
               in case staging of
                    Some stg \<Rightarrow>
                      do {
                        stg' \<leftarrow> foldlM (\<lambda>g deleteStr. Add_ss g (GetStringHash s deleteStr) key)
                                  stg edits;
                        Some (True, s, Some stg')
                      }
                  | None \<Rightarrow>
                      Some (True, s\<lparr> deletes := foldl (add_delete s key) (deletes s) edits \<rparr>,
                            None))"

lemma CreateDictionaryEntry_steps:
  "CreateDictionaryEntry s key c g =
     (if c \<le>s 0 \<and> 0 <s countThreshold s then Some (False, s, g)
      else case threshold_step s key (if c \<le>s 0 then 0 else c) of
             Inl s' \<Rightarrow> Some (False, s', g)
           | Inr (s1, c1) \<Rightarrow> index_step s1 key c1 g)"
  unfolding CreateDictionaryEntry_def threshold_step_def index_step_def Let_def
  by (rule refl)

lemma threshold_step_Inl:
  "threshold_step s key c = Inl s' \<Longrightarrow> deletes s' = deletes s \<and> dom (words s) \<subseteq> dom (words s')"
  by (auto simp: threshold_step_def Let_def split: if_splits option.splits)

lemma threshold_step_Inr:
  "threshold_step s key c = Inr (s1, c1) \<Longrightarrow> deletes s1 = deletes s \<and> words s1 = words s"
  by (auto simp: threshold_step_def Let_def split: if_splits option.splits)

lemma index_step_deletes_ok:
  assumes "deletes_ok s1" "index_step s1 key c1 g = Some (b, s', g')"
  shows "deletes_ok s'"
proof (cases g)
  case (Some stg)
  then have "deletes s' = deletes s1" "words s' = (words s1)(key \<mapsto> c1)"
    using assms(2) by (auto simp: index_step_def Let_def split: bind_splits if_splits)
  then show ?thesis using assms(1) by (auto simp: deletes_ok_def)
next
  case None
  then obtain s2 edits where d: "deletes s' = foldl (add_delete s2 key) (deletes s1) edits"
    and w: "words s' = (words s1)(key \<mapsto> c1)"
    using assms(2) by (auto simp: index_step_def Let_def split: if_splits)
  show ?thesis
    unfolding deletes_ok_def
  proof (intro allI impI)
    fix h b assume "deletes s' h = Some b"
    then have "set b \<subseteq> insert key (case deletes s1 h of None \<Rightarrow> {} | Some b0 \<Rightarrow> set b0)"
      using d foldl_add_delete by metis
    moreover have "(case deletes s1 h of None \<Rightarrow> {} | Some b0 \<Rightarrow> set b0) \<subseteq> dom (words s1)"
      using assms(1) by (auto simp: deletes_ok_def split: option.splits)
    ultimately show "set b \<subseteq> dom (words s')"
      using w by auto
  qed
qed

lemma CreateDictionaryEntry_deletes_ok:
  assumes "deletes_ok s" "CreateDictionaryEntry s key c g = Some (b, s', g')"
  shows "deletes_ok s'"
proof (cases "c \<le>s 0 \<and> 0 <s countThreshold s")
  case True
  then show ?thesis using assms by (simp add: CreateDictionaryEntry_steps)
next
  case False
  show ?thesis
  proof (cases "threshold_step s key (if c \<le>s 0 then 0 else c)")
    case (Inl s0)
    then have "s' = s0" using assms(2) False by (simp add: CreateDictionaryEntry_steps)
    with threshold_step_Inl [OF Inl] have "deletes s' = deletes s" "dom (words s) \<subseteq> dom (words s')"
      by simp_all
    with assms(1) show ?thesis
      unfolding deletes_ok_def by (simp add: subset_iff)
  next
    case (Inr r)
    obtain s1 c1 where r: "r = (s1, c1)" by (cases r)
    from threshold_step_Inr [OF Inr [unfolded r]] assms(1) have "deletes_ok s1"
      by (auto simp: deletes_ok_def)
    moreover have "index_step s1 key c1 g = Some (b, s', g')"
      using assms(2) False Inr r by (simp add: CreateDictionaryEntry_steps)
    ultimately show ?thesis by (rule index_step_deletes_ok)
  qed
qed

lemma NewSymSpell_deletes_ok: "NewSymSpell c m p t l = Inr s \<Longrightarrow> deletes_ok s"
  by (auto simp: NewSymSpell_def deletes_ok_def split: if_splits)

lemma built_deletes_ok: "built s \<Longrightarrow> deletes_ok s"
proof (induction rule: built.induct)
  case (new c m p t l s)
  then show ?case by (rule NewSymSpell_deletes_ok)
next
  case (entry s key cnt staging b s' staging')
  from entry.IH entry.hyps(2) show ?case by (rule CreateDictionaryEntry_deletes_ok)
qed

lemma foldlM_invariant:
  "(\<And>st x st'. I st \<Longrightarrow> x \<in> set xs \<Longrightarrow> f st x = Some st' \<Longrightarrow> I st')
   \<Longrightarrow> I st \<Longrightarrow> foldlM f st xs = Some st' \<Longrightarrow> I st'"
proof (induction xs arbitrary: st)
  case Nil
  then show ?case by simp
next
  case (Cons x xs)
  from Cons.prems(3) obtain st1 where s1: "f st x = Some st1" and s2: "foldlM f st1 xs = Some st'"
    by (auto split: bind_splits)
  have 1: "I st1"
    by (rule Cons.prems(1) [OF Cons.prems(2) _ s1]) simp
  show ?case
  proof (rule Cons.IH [OF _ 1 s2])
    fix st2 x' st3
    assume a: "I st2" "x' \<in> set xs" "f st2 x' = Some st3"
    show "I st3"
      by (rule Cons.prems(1) [OF a(1) _ a(3)]) (simp add: a(2))
  qed
qed

lemma candidates_loop_invariant:
  assumes step: "\<And>st candidate sugg st' h b. I st \<Longrightarrow> deletes s h = Some b \<Longrightarrow> sugg \<in> set b
      \<Longrightarrow> lookup_suggestion s input v m candidate p st sugg = Some st' \<Longrightarrow> I st'"
    and hs1: "\<And>st h. I st \<Longrightarrow> I (st\<lparr> hashset1 := h \<rparr>)"
  shows "I st \<Longrightarrow> candidates_loop s input v m p cands st = Some st' \<Longrightarrow> I st'"
proof (induction "work cands" arbitrary: cands st rule: less_induct)
  case less
  show ?case
  proof (cases cands)
    case Nil
    then show ?thesis using less.prems by simp
  next
    case (Cons c cs)
    have w1: "work cs < work cands"
      by (simp add: Cons work_def)
    have w2: "work (snd (expand c 0 h cs)) < work cands" for h
      by (simp add: Cons work_expand_less)
    show ?thesis
    proof (cases "maxEditDistance2 st < p - len c")
      case True
      then show ?thesis
        using less.prems less.hyps [OF w1] by (auto simp: Cons Let_def split: if_splits)
    next
      case False
      define bucket where "bucket = (case deletes s (GetStringHash s c) of
          Some dictSuggestions \<Rightarrow> foldlM (lookup_suggestion s input v m c p) st dictSuggestions
        | None \<Rightarrow> Some st)"
      obtain a where a: "bucket = Some a"
        and r: "(if p - len c < m \<and> len c \<le> prefixLength s then
            if v \<noteq> AllV \<and> p - len c \<ge> maxEditDistance2 a
            then candidates_loop s input v m p cs a
            else candidates_loop s input v m p (snd (expand c 0 (hashset1 a) cs))
                (a\<lparr> hashset1 := fst (expand c 0 (hashset1 a) cs) \<rparr>)
          else candidates_loop s input v m p cs a) = Some st'"
        using less.prems(2) False
        by (auto simp: Cons Let_def bucket_def split: bind_splits)
      have "I a"
      proof (cases "deletes s (GetStringHash s c)")
        case None
        then show ?thesis using a less.prems(1) by (simp add: bucket_def)
      next
        case (Some b)
        then have f: "foldlM (lookup_suggestion s input v m c p) st b = Some a"
          using a by (simp add: bucket_def)
        show ?thesis
        proof (rule foldlM_invariant [where I = I and f = "lookup_suggestion s input v m c p"
              and xs = b and st = st, OF _ less.prems(1) f])
          fix st2 x st3
          assume "I st2" "x \<in> set b" "lookup_suggestion s input v m c p st2 x = Some st3"
          then show "I st3" using step Some by blast
        qed
      qed
      show ?thesis
      proof (cases "p - len c < m \<and> len c \<le> prefixLength s")
        case False
        then show ?thesis using r less.hyps [OF w1 \<open>I a\<close>] by (auto split: if_splits)
      next
        case True
        show ?thesis
        proof (cases "v \<noteq> AllV \<and> p - len c \<ge> maxEditDistance2 a")
          case True
          then show ?thesis using r \<open>p - len c < m \<and> len c \<le> prefixLength s\<close>
              less.hyps [OF w1 \<open>I a\<close>] by (auto split: if_splits)
        next
          case False
          then show ?thesis using r \<open>p - len c < m \<and> len c \<le> prefixLength s\<close>
              less.hyps [OF w2 hs1 [OF \<open>I a\<close>]] by (auto split: if_splits)
        qed
      qed
    qed
  qed
qed

lemma suggestion_distance_fields:
  "suggestion_distance s input v m candidate st sugg = Some (d, st')
   \<Longrightarrow> suggestions st' = suggestions st \<and> maxEditDistance2 st' = maxEditDistance2 st
       \<and> hashset1 st' = hashset1 st"
  by (auto simp: suggestion_distance_def Let_def addToSet_def
        split: if_splits bind_splits prod.splits)

lemma admit_suggestions:
  "set (suggestions (admit s v st sugg d))
     \<subseteq> insert \<lparr> term_si = sugg, distance = d,
                 count = (case words s sugg of Some c \<Rightarrow> c | None \<Rightarrow> 0) \<rparr>
         (set (suggestions st))"
  by (auto simp: admit_def Let_def split: list.splits Verbosity.splits if_splits)


section \<open>The shape of a lookup\<close>

text \<open>
  \<open>Lookup\<close> in parts: the state before the worklist loop, the worklist, the sort with
  the removal of duplicates, and the end of the function.
\<close>

definition lookup_init :: "SymSpell \<Rightarrow> string \<Rightarrow> int \<Rightarrow> lookup_state" where
  "lookup_init s input m =
     \<lparr> suggestions = (case words s input of
                        Some c \<Rightarrow> [\<lparr> term_si = input, distance = 0, count = c \<rparr>]
                      | None \<Rightarrow> []),
       hashset1 = {}, hashset2 = {input}, maxEditDistance2 = m,
       distanceComparer = NewDistanceComparer \<rparr>"

definition lookup_final :: "string \<Rightarrow> int \<Rightarrow> bool \<Rightarrow> SuggestItems \<Rightarrow> SuggestItems" where
  "lookup_final input m includeUnknown found =
     (if includeUnknown \<and> found = []
      then found @ [\<lparr> term_si = input, distance = m + 1, count = 0 \<rparr>] else found)"

definition lookup_sorted :: "(SuggestItems \<Rightarrow> SuggestItems) \<Rightarrow> lookup_state \<Rightarrow> SuggestItems" where
  "lookup_sorted sort_Sort st =
     (if len (suggestions st) > 1 then unique_terms {} (sort_Sort (suggestions st))
      else suggestions st)"

definition lookup_worklist :: "SymSpell \<Rightarrow> string \<Rightarrow> (int \<times> string list) option" where
  "lookup_worklist s input =
     (if len input > prefixLength s
      then do { p \<leftarrow> slice_to input (prefixLength s); Some (prefixLength s, [p]) }
      else Some (len input, [input]))"

lemma Lookup_unfold:
  "Lookup sort_Sort s input v m iu =
     (if m > maxDictionaryEditDistance s then None
      else if len input - m > maxDictionaryWordLength s then Some (lookup_final input m iu [])
      else if (words s input \<noteq> None \<and> v \<noteq> AllV) \<or> m = 0
      then Some (lookup_final input m iu (suggestions (lookup_init s input m)))
      else lookup_worklist s input \<bind> (\<lambda>(p, cands).
             candidates_loop s input v m p cands (lookup_init s input m)
             \<bind> (\<lambda>st. Some (lookup_final input m iu (lookup_sorted sort_Sort st)))))"
proof (cases "words s input")
  case None
  show ?thesis
    by (simp add: Lookup_def Let_def lookup_init_def lookup_final_def lookup_sorted_def
          lookup_worklist_def None len_def del: candidates_loop.simps)
next
  case (Some c)
  show ?thesis
    by (simp add: Lookup_def Let_def lookup_init_def lookup_final_def lookup_sorted_def
          lookup_worklist_def Some len_def del: candidates_loop.simps)
qed

lemma Lookup_cases:
  assumes "Lookup sort_Sort s input v m iu = Some r"
  obtains (early) "r = lookup_final input m iu (suggestions (lookup_init s input m))"
      "m \<le> maxDictionaryEditDistance s"
  | (none) "r = lookup_final input m iu []" "m \<le> maxDictionaryEditDistance s"
  | (loop) p cands st where
      "candidates_loop s input v m p cands (lookup_init s input m) = Some st"
      "r = lookup_final input m iu (lookup_sorted sort_Sort st)"
      "m \<le> maxDictionaryEditDistance s"
  using assms unfolding Lookup_unfold
  by (auto split: if_splits bind_splits prod.splits simp del: candidates_loop.simps)

lemma unique_terms_subset: "set (unique_terms seen xs) \<subseteq> set xs"
  by (induction xs arbitrary: seen) auto

lemma unique_terms_sorted:
  "sorted_wrt P xs \<Longrightarrow> sorted_wrt P (unique_terms seen xs)"
proof (induction xs arbitrary: seen)
  case Nil
  then show ?case by simp
next
  case (Cons x xs)
  then show ?case
    using unique_terms_subset [of "insert (term_si x) seen" xs] by auto
qed

lemma unique_terms_distinct:
  "distinct (map term_si (unique_terms seen xs))
   \<and> term_si ` set (unique_terms seen xs) \<inter> seen = {}"
  by (induction xs arbitrary: seen) auto

lemma not_Less_iff: "\<not> Less b a \<longleftrightarrow> ordered a b"
  by (auto simp: Less_def ordered_def word_sle_eq word_sless_alt)

lemma ordered_trans: "ordered a b \<Longrightarrow> ordered b c \<Longrightarrow> ordered a c"
  by (auto simp: ordered_def word_sle_eq)

lemma ordered_total: "ordered a b \<or> ordered b a"
  by (auto simp: ordered_def word_sle_eq)

lemma mset_insert_item: "mset (insert_item x ys) = add_mset x (mset ys)"
  by (induction ys) auto

lemma set_insert_item: "set (insert_item x ys) = insert x (set ys)"
  by (induction ys) auto

lemma sorted_insert_item:
  "sorted_wrt (\<lambda>a b. ordered b a) ys \<Longrightarrow> sorted_wrt (\<lambda>a b. ordered b a) (insert_item x ys)"
proof (induction ys)
  case Nil
  then show ?case by simp
next
  case (Cons y ys)
  show ?case
  proof (cases "Less x y")
    case True
    then have "ordered x y" using ordered_total [of x y] by (auto simp: not_Less_iff [symmetric])
    with True Cons show ?thesis by (auto simp: set_insert_item)
  next
    case False
    then have "ordered y x" by (simp add: not_Less_iff)
    with False Cons.prems show ?thesis by (auto intro: ordered_trans)
  qed
qed

lemma insertion_fold:
  "sorted_wrt (\<lambda>a b. ordered b a) acc \<Longrightarrow>
     sorted_wrt (\<lambda>a b. ordered b a) (foldl (\<lambda>sorted x. insert_item x sorted) acc xs)
     \<and> mset (foldl (\<lambda>sorted x. insert_item x sorted) acc xs) = mset acc + mset xs"
  by (induction xs arbitrary: acc) (auto simp: sorted_insert_item mset_insert_item)

lemma sorts_insertionSort: "sorts insertionSort"
  using insertion_fold [of "[]"]
  by (simp add: sorts_def insertionSort_def sorted_wrt_rev not_Less_iff)

lemma sorts_sorted: "sorts sort_Sort \<Longrightarrow> sorted_wrt ordered (sort_Sort xs)"
  by (simp add: sorts_def not_Less_iff)

lemma sorts_set: "sorts sort_Sort \<Longrightarrow> set (sort_Sort xs) = set xs"
  by (metis sorts_def mset_eq_setD)

lemma lookup_sorted_ok:
  assumes "sorts sort_Sort"
  shows "sorted_wrt ordered (lookup_sorted sort_Sort st)
         \<and> distinct (map term_si (lookup_sorted sort_Sort st))
         \<and> set (lookup_sorted sort_Sort st) \<subseteq> set (suggestions st)"
proof (cases "len (suggestions st) > 1")
  case True
  then show ?thesis
    using unique_terms_sorted [OF sorts_sorted [OF assms], of "{}" "suggestions st"]
      unique_terms_distinct [of "{}" "sort_Sort (suggestions st)"]
      unique_terms_subset [of "{}" "sort_Sort (suggestions st)"] sorts_set [OF assms]
    by (simp add: lookup_sorted_def)
next
  case False
  then have "length (suggestions st) \<le> 1" by (simp add: len_def)
  then have "suggestions st = [] \<or> (\<exists>x. suggestions st = [x])"
    by (cases "suggestions st") auto
  with False show ?thesis by (auto simp: lookup_sorted_def)
qed

lemma lookup_final_ok:
  "sorted_wrt ordered found \<Longrightarrow> distinct (map term_si found)
   \<Longrightarrow> sorted_wrt ordered (lookup_final input m iu found)
       \<and> distinct (map term_si (lookup_final input m iu found))"
  by (simp add: lookup_final_def)

text \<open>
  C5, as the code has it. The list that \<open>Lookup\<close> returns is in the order of section
  4.H (distance ascending, count descending at equal distance) and holds no two items
  with the same term, whenever \<open>sort.Sort\<close> does what the library promises. That
  promise leaves open the order of items with equal distance and equal count.
\<close>

theorem Lookup_sorted_distinct:
  "sorts sort_Sort \<Longrightarrow> Lookup sort_Sort s input v m iu = Some r
   \<Longrightarrow> sorted_wrt ordered r \<and> distinct (map term_si r)"
proof -
  assume so: "sorts sort_Sort" and l: "Lookup sort_Sort s input v m iu = Some r"
  from l show ?thesis
  proof (cases rule: Lookup_cases)
    case early
    then show ?thesis
      by (auto simp: lookup_final_def lookup_init_def split: option.splits)
  next
    case none
    then show ?thesis by (simp add: lookup_final_def)
  next
    case (loop p cands st)
    then show ?thesis
      using lookup_sorted_ok [OF so, of st] lookup_final_ok by simp
  qed
qed


theorem Lookup_sorted_distinct_witness:
  "sorts insertionSort
   \<and> Lookup insertionSort (with_entry (with_entry (engine 1 3 1) ''pipe'' 5) ''pips'' 10)
        ''pipe'' AllV 1 False
      = Some [\<lparr> term_si = ''pipe'', distance = 0, count = 5 \<rparr>,
              \<lparr> term_si = ''pips'', distance = 1, count = 10 \<rparr>]
   \<and> sorted_wrt ordered [\<lparr> term_si = ''pipe'', distance = 0, count = 5 \<rparr>,
                          \<lparr> term_si = ''pips'', distance = 1, count = 10 \<rparr>]
   \<and> distinct (map term_si [\<lparr> term_si = ''pipe'', distance = 0, count = 5 \<rparr>,
                              \<lparr> term_si = ''pips'', distance = 1, count = 10 \<rparr>])"
proof -
  have l: "Lookup insertionSort (with_entry (with_entry (engine 1 3 1) ''pipe'' 5) ''pips'' 10)
        ''pipe'' AllV 1 False
      = Some [\<lparr> term_si = ''pipe'', distance = 0, count = 5 \<rparr>,
              \<lparr> term_si = ''pips'', distance = 1, count = 10 \<rparr>]"
    by code_simp
  show ?thesis
    using sorts_insertionSort l Lookup_sorted_distinct [OF sorts_insertionSort l] by simp
qed

text \<open>
  Equations for evaluation. A rune below 128 is decoded without a look at the bytes
  that follow, and the string hash is computed on integers modulo \<open>2^32\<close>.
\<close>

lemma decodeRune_code [code]:
  "decodeRune [] = (RuneError, 0)"
  "decodeRune (c # cs) =
     (let s0 = byte c in
      if s0 < 128 then (s0, 1)
      else if s0 < 194 \<or> 244 < s0 then (RuneError, 1)
      else
        let bs = map byte cs;
            sz = (if s0 < 224 then 2 else if s0 < 240 then 3 else 4 :: nat);
            lo = (if s0 = 224 then 160 else if s0 = 240 then 144 else 128);
            hi = (if s0 = 237 then 159 else if s0 = 244 then 143 else 191)
        in if length bs + 1 < sz then (RuneError, 1)
           else if \<not> cont lo hi (bs ! 0) then (RuneError, 1)
           else if sz = 2 then ((s0 mod 32) * 64 + bs ! 0 mod 64, 2)
           else if \<not> cont 128 191 (bs ! 1) then (RuneError, 1)
           else if sz = 3 then ((s0 mod 16) * 4096 + (bs ! 0 mod 64) * 64 + bs ! 1 mod 64, 3)
           else if \<not> cont 128 191 (bs ! 2) then (RuneError, 1)
           else ((s0 mod 8) * 262144 + (bs ! 0 mod 64) * 4096 + (bs ! 1 mod 64) * 64
                 + bs ! 2 mod 64, 4))"
  by (simp_all add: Let_def)

lemma runes_code [code]:
  "runes [] = []"
  "runes (c # cs) = (case decodeRune (c # cs) of (r, n) \<Rightarrow> r # runes (drop (n - 1) cs))"
  by (simp_all add: case_prod_unfold del: decodeRune.simps)



text \<open>One step of the FNV-1a loop of \<open>GetStringHash\<close> on the unsigned value of the hash.\<close>

definition fnv_step :: "int \<Rightarrow> nat \<Rightarrow> int" where
  "fnv_step h r = ((h XOR (int r mod 4294967296)) * 16777619) mod 4294967296"

lemma uint_fnv_step: "uint (((w :: 32 word) XOR of_nat r) * 16777619) = fnv_step (uint w) r"
  by (simp add: fnv_step_def uint_word_ariths uint_xor unsigned_of_nat take_bit_eq_mod zmod_int)

lemma uint_mask_or: "0 \<le> l \<Longrightarrow> l \<le> 3 \<Longrightarrow> uint ((h :: 32 word) AND m OR of_int l) = (uint h AND uint m) OR l"
  by (simp add: uint_or uint_and uint_word_of_int)


lemma uint_fnv: "uint (foldl (\<lambda>h r. (h XOR of_nat r) * 16777619) (w :: 32 word) rs)
   = foldl fnv_step (uint w) rs"
proof (induction rs arbitrary: w)
  case Nil
  then show ?case by simp
next
  case (Cons r rs)
  show ?case using Cons.IH [of "(w XOR of_nat r) * 16777619"] by (simp add: uint_fnv_step)
qed

lemma GetStringHash_int [code]:
  "GetStringHash s str =
     (let lenRunes = len (runes str);
          lenMask = (if lenRunes > 3 then 3 else lenRunes)
      in (foldl fnv_step 2166136261 (runes str) AND uint (compactMask s)) OR lenMask)"
proof -
  define H :: "32 word" where
    "H = foldl (\<lambda>h r. (h XOR of_nat r) * 16777619) 2166136261 (runes str)"
  define l where "l = (if len (runes str) > 3 then 3 else len (runes str))"
  have h: "uint H = foldl fnv_step 2166136261 (runes str)"
    using uint_fnv [of 2166136261 "runes str"] by (simp add: H_def)
  have "0 \<le> l" "l \<le> 3" by (simp_all add: l_def len_def)
  then have "uint (H AND compactMask s OR of_int l) = (uint H AND uint (compactMask s)) OR l"
    by (rule uint_mask_or)
  then show ?thesis
    unfolding GetStringHash_def Let_def H_def [symmetric] l_def [symmetric] h .
qed

section \<open>The library sort on a slice of suggestions\<close>

text \<open>
  \<open>Lookup\<close> sorts with \<open>sort.Sort\<close> of the Go standard library, which is no part of the
  repository. Since Go 1.19 it is a pattern-defeating quicksort (\<open>pdqsort\<close> in package
  \<open>sort\<close>) over the methods \<open>Len\<close>, \<open>Less\<close> and \<open>Swap\<close> of \<open>SuggestItems\<close>. It is modelled
  here on a slice of suggestions, index by index, with \<open>None\<close> for an index out of range.
  After a partition that was badly balanced the library scatters three items by a
  pseudo-random sequence (\<open>breakPatterns\<close>) and may fall back to \<open>heapSort\<close>: these two
  are not modelled, and the model is \<open>None\<close> where the library would run them.
\<close>

text \<open>The methods \<open>Swap\<close> and \<open>Less\<close> of \<open>SuggestItems\<close> (part_001).\<close>

definition Swap :: "SuggestItems \<Rightarrow> int \<Rightarrow> int \<Rightarrow> SuggestItems option" where
  "Swap s i j = do { x \<leftarrow> at s i; y \<leftarrow> at s j; s \<leftarrow> store s i y; store s j x }"

definition Less_at :: "SuggestItems \<Rightarrow> int \<Rightarrow> int \<Rightarrow> bool option" where
  "Less_at s i j = do { x \<leftarrow> at s i; y \<leftarrow> at s j; Some (Less x y) }"

text \<open>\<open>insertionSort(data, a, b)\<close>: the inner loop moves item \<open>j\<close> left while it is \<open>Less\<close>.\<close>

function insertion_inner :: "SuggestItems \<Rightarrow> int \<Rightarrow> int \<Rightarrow> SuggestItems option" where
  "insertion_inner data a j =
     (if j > a then
        do {
          l \<leftarrow> Less_at data j (j - 1);
          if l then do { data \<leftarrow> Swap data j (j - 1); insertion_inner data a (j - 1) }
          else Some data
        }
      else Some data)"
  by pat_completeness auto
termination
  by (relation "measure (\<lambda>(data, a, j). nat (j - a))") auto

declare insertion_inner.simps [simp del]

function insertion_outer :: "SuggestItems \<Rightarrow> int \<Rightarrow> int \<Rightarrow> int \<Rightarrow> SuggestItems option" where
  "insertion_outer data a b i =
     (if i < b then
        do { data \<leftarrow> insertion_inner data a i; insertion_outer data a b (i + 1) }
      else Some data)"
  by pat_completeness auto
termination
  by (relation "measure (\<lambda>(data, a, b, i). nat (b - i))") auto

declare insertion_outer.simps [simp del]

definition insertionSort_range :: "SuggestItems \<Rightarrow> int \<Rightarrow> int \<Rightarrow> SuggestItems option" where
  "insertionSort_range data a b = insertion_outer data a b (a + 1)"

text \<open>
  \<open>choosePivot\<close>: the median of three (of three medians from 50 items on) of the items at
  the quarters of the range, with the count of swaps as a hint on the order found.
\<close>

definition order2 :: "SuggestItems \<Rightarrow> int \<Rightarrow> int \<Rightarrow> int \<Rightarrow> (int \<times> int \<times> int) option" where
  "order2 data a b swaps =
     do { l \<leftarrow> Less_at data b a; Some (if l then (b, a, swaps + 1) else (a, b, swaps)) }"

definition median :: "SuggestItems \<Rightarrow> int \<Rightarrow> int \<Rightarrow> int \<Rightarrow> int \<Rightarrow> (int \<times> int) option" where
  "median data a b c swaps =
     do {
       (a, b, swaps) \<leftarrow> order2 data a b swaps;
       (b, c, swaps) \<leftarrow> order2 data b c swaps;
       (a, b, swaps) \<leftarrow> order2 data a b swaps;
       Some (b, swaps)
     }"

definition medianAdjacent :: "SuggestItems \<Rightarrow> int \<Rightarrow> int \<Rightarrow> (int \<times> int) option" where
  "medianAdjacent data a swaps = median data (a - 1) a (a + 1) swaps"

datatype sortedHint = unknownHint | increasingHint | decreasingHint

definition choosePivot :: "SuggestItems \<Rightarrow> int \<Rightarrow> int \<Rightarrow> (int \<times> sortedHint) option" where
  "choosePivot data a b =
     (let l = b - a;
          swaps = 0;
          i = a + go_div l 4 * 1;
          j = a + go_div l 4 * 2;
          k = a + go_div l 4 * 3
      in do {
           (j, swaps) \<leftarrow>
             (if l \<ge> 8 then
                do {
                  (i, j, k, swaps) \<leftarrow>
                    (if l \<ge> 50 then
                       do {
                         (i, swaps) \<leftarrow> medianAdjacent data i swaps;
                         (j, swaps) \<leftarrow> medianAdjacent data j swaps;
                         (k, swaps) \<leftarrow> medianAdjacent data k swaps;
                         Some (i, j, k, swaps)
                       }
                     else Some (i, j, k, swaps));
                  median data i j k swaps
                }
              else Some (j, swaps));
           Some (j, if swaps = 0 then increasingHint
                    else if swaps = 4 * 3 then decreasingHint
                    else unknownHint)
         })"

text \<open>\<open>reverseRange(data, a, b)\<close>.\<close>

function reverse_loop :: "SuggestItems \<Rightarrow> int \<Rightarrow> int \<Rightarrow> SuggestItems option" where
  "reverse_loop data i j =
     (if i < j then do { data \<leftarrow> Swap data i j; reverse_loop data (i + 1) (j - 1) }
      else Some data)"
  by pat_completeness auto
termination
  by (relation "measure (\<lambda>(data, i, j). nat (j - i))") auto

declare reverse_loop.simps [simp del]

definition reverseRange :: "SuggestItems \<Rightarrow> int \<Rightarrow> int \<Rightarrow> SuggestItems option" where
  "reverseRange data a b = reverse_loop data a (b - 1)"

text \<open>
  \<open>partialInsertionSort(data, a, b)\<close>: reports whether the range is sorted; on a range
  of fewer than 50 items it changes nothing.
\<close>

function in_order_run :: "SuggestItems \<Rightarrow> int \<Rightarrow> int \<Rightarrow> int option" where
  "in_order_run data b i =
     (if i < b then
        do { l \<leftarrow> Less_at data i (i - 1); if \<not> l then in_order_run data b (i + 1) else Some i }
      else Some i)"
  by pat_completeness auto
termination
  by (relation "measure (\<lambda>(data, b, i). nat (b - i))") auto

declare in_order_run.simps [simp del]

function shift_left :: "SuggestItems \<Rightarrow> int \<Rightarrow> SuggestItems option" where
  "shift_left data j =
     (if j \<ge> 1 then
        do {
          l \<leftarrow> Less_at data j (j - 1);
          if \<not> l then Some data
          else do { data \<leftarrow> Swap data j (j - 1); shift_left data (j - 1) }
        }
      else Some data)"
  by pat_completeness auto
termination
  by (relation "measure (\<lambda>(data, j). nat j)") auto

declare shift_left.simps [simp del]

function shift_right :: "SuggestItems \<Rightarrow> int \<Rightarrow> int \<Rightarrow> SuggestItems option" where
  "shift_right data b j =
     (if j < b then
        do {
          l \<leftarrow> Less_at data j (j - 1);
          if \<not> l then Some data
          else do { data \<leftarrow> Swap data j (j - 1); shift_right data b (j + 1) }
        }
      else Some data)"
  by pat_completeness auto
termination
  by (relation "measure (\<lambda>(data, b, j). nat (b - j))") auto

declare shift_right.simps [simp del]

function partial_steps :: "SuggestItems \<Rightarrow> int \<Rightarrow> int \<Rightarrow> int \<Rightarrow> int
    \<Rightarrow> (SuggestItems \<times> bool) option" where
  "partial_steps data a b i j =
     (if j < 5 then
        do {
          i \<leftarrow> in_order_run data b i;
          if i = b then Some (data, True)
          else if b - a < 50 then Some (data, False)
          else
            do {
              data \<leftarrow> Swap data i (i - 1);
              data \<leftarrow> (if i - a \<ge> 2 then shift_left data (i - 1) else Some data);
              data \<leftarrow> (if b - i \<ge> 2 then shift_right data b (i + 1) else Some data);
              partial_steps data a b i (j + 1)
            }
        }
      else Some (data, False))"
  by pat_completeness auto
termination
  by (relation "measure (\<lambda>(data, a, b, i, j). nat (5 - j))") auto

declare partial_steps.simps [simp del]

definition partialInsertionSort :: "SuggestItems \<Rightarrow> int \<Rightarrow> int \<Rightarrow> (SuggestItems \<times> bool) option" where
  "partialInsertionSort data a b = partial_steps data a b (a + 1) 0"

text \<open>
  \<open>partition(data, a, b, pivot)\<close>: the pivot is swapped to \<open>a\<close>; \<open>i\<close> runs up over the
  items \<open>Less\<close> than it and \<open>j\<close> runs down over the others, and items are swapped in pairs
  until the two meet. The pivot is then swapped to \<open>j\<close>.
\<close>

function lower_run :: "SuggestItems \<Rightarrow> int \<Rightarrow> int \<Rightarrow> int \<Rightarrow> int option" where
  "lower_run data a i j =
     (if i \<le> j then
        do { l \<leftarrow> Less_at data i a; if l then lower_run data a (i + 1) j else Some i }
      else Some i)"
  by pat_completeness auto
termination
  by (relation "measure (\<lambda>(data, a, i, j). nat (j + 1 - i))") auto

declare lower_run.simps [simp del]

function not_lower_run :: "SuggestItems \<Rightarrow> int \<Rightarrow> int \<Rightarrow> int \<Rightarrow> int option" where
  "not_lower_run data a i j =
     (if i \<le> j then
        do { l \<leftarrow> Less_at data j a; if \<not> l then not_lower_run data a i (j - 1) else Some j }
      else Some j)"
  by pat_completeness auto
termination
  by (relation "measure (\<lambda>(data, a, i, j). nat (j + 1 - i))") auto

declare not_lower_run.simps [simp del]

lemma lower_run_ge: "lower_run data a i j = Some i' \<Longrightarrow> i \<le> i'"
proof (induction data a i j rule: lower_run.induct)
  case (1 data a i j)
  then show ?case
    by (subst (asm) lower_run.simps) (fastforce split: if_splits bind_splits)
qed

lemma not_lower_run_le: "not_lower_run data a i j = Some j' \<Longrightarrow> j' \<le> j"
proof (induction data a i j rule: not_lower_run.induct)
  case (1 data a i j)
  then show ?case
    by (subst (asm) not_lower_run.simps) (fastforce split: if_splits bind_splits)
qed

function partition_loop :: "SuggestItems \<Rightarrow> int \<Rightarrow> int \<Rightarrow> int \<Rightarrow> (SuggestItems \<times> int) option" where
  "partition_loop data a i j =
     do {
       i \<leftarrow> lower_run data a i j;
       j \<leftarrow> not_lower_run data a i j;
       if i > j then Some (data, j)
       else do { data \<leftarrow> Swap data i j; partition_loop data a (i + 1) (j - 1) }
     }"
  by pat_completeness auto
termination
proof (relation "measure (\<lambda>(data, a, i, j). nat (j + 1 - i))", goal_cases)
  case 1
  then show ?case by simp
next
  case (2 data a i j i' j' data')
  then show ?case
    using lower_run_ge [of data a i j i'] not_lower_run_le [of data a i' j j'] by simp
qed

declare partition_loop.simps [simp del]

definition partition_go :: "SuggestItems \<Rightarrow> int \<Rightarrow> int \<Rightarrow> int \<Rightarrow> (SuggestItems \<times> int \<times> bool) option" where
  "partition_go data a b pivot =
     do {
       data \<leftarrow> Swap data a pivot;
       let i = a + 1;
       let j = b - 1;
       i \<leftarrow> lower_run data a i j;
       j \<leftarrow> not_lower_run data a i j;
       if i > j then do { data \<leftarrow> Swap data j a; Some (data, j, True) }
       else
         do {
           data \<leftarrow> Swap data i j;
           (data, j) \<leftarrow> partition_loop data a (i + 1) (j - 1);
           data \<leftarrow> Swap data j a;
           Some (data, j, False)
         }
     }"

text \<open>\<open>partitionEqual(data, a, b, pivot)\<close>: items equal to the pivot first.\<close>

function not_greater_run :: "SuggestItems \<Rightarrow> int \<Rightarrow> int \<Rightarrow> int \<Rightarrow> int option" where
  "not_greater_run data a i j =
     (if i \<le> j then
        do { l \<leftarrow> Less_at data a i; if \<not> l then not_greater_run data a (i + 1) j else Some i }
      else Some i)"
  by pat_completeness auto
termination
  by (relation "measure (\<lambda>(data, a, i, j). nat (j + 1 - i))") auto

declare not_greater_run.simps [simp del]

function greater_run :: "SuggestItems \<Rightarrow> int \<Rightarrow> int \<Rightarrow> int \<Rightarrow> int option" where
  "greater_run data a i j =
     (if i \<le> j then
        do { l \<leftarrow> Less_at data a j; if l then greater_run data a i (j - 1) else Some j }
      else Some j)"
  by pat_completeness auto
termination
  by (relation "measure (\<lambda>(data, a, i, j). nat (j + 1 - i))") auto

declare greater_run.simps [simp del]

lemma not_greater_run_ge: "not_greater_run data a i j = Some i' \<Longrightarrow> i \<le> i'"
proof (induction data a i j rule: not_greater_run.induct)
  case (1 data a i j)
  then show ?case
    by (subst (asm) not_greater_run.simps) (fastforce split: if_splits bind_splits)
qed

lemma greater_run_le: "greater_run data a i j = Some j' \<Longrightarrow> j' \<le> j"
proof (induction data a i j rule: greater_run.induct)
  case (1 data a i j)
  then show ?case
    by (subst (asm) greater_run.simps) (fastforce split: if_splits bind_splits)
qed

function partitionEqual_loop :: "SuggestItems \<Rightarrow> int \<Rightarrow> int \<Rightarrow> int \<Rightarrow> (SuggestItems \<times> int) option" where
  "partitionEqual_loop data a i j =
     do {
       i \<leftarrow> not_greater_run data a i j;
       j \<leftarrow> greater_run data a i j;
       if i > j then Some (data, i)
       else do { data \<leftarrow> Swap data i j; partitionEqual_loop data a (i + 1) (j - 1) }
     }"
  by pat_completeness auto
termination
proof (relation "measure (\<lambda>(data, a, i, j). nat (j + 1 - i))", goal_cases)
  case 1
  then show ?case by simp
next
  case (2 data a i j i' j' data')
  then show ?case
    using not_greater_run_ge [of data a i j i'] greater_run_le [of data a i' j j'] by simp
qed

declare partitionEqual_loop.simps [simp del]

definition partitionEqual :: "SuggestItems \<Rightarrow> int \<Rightarrow> int \<Rightarrow> int \<Rightarrow> (SuggestItems \<times> int) option" where
  "partitionEqual data a b pivot =
     do { data \<leftarrow> Swap data a pivot; partitionEqual_loop data a (a + 1) (b - 1) }"

text \<open>\<open>bits.Len\<close>: the number of bits of a non-negative number.\<close>

fun bits_Len :: "nat \<Rightarrow> int" where
  "bits_Len n = (if n = 0 then 0 else 1 + bits_Len (n div 2))"

declare bits_Len.simps [simp del]

text \<open>
  \<open>pdqsort(data, a, b, limit)\<close>. Its loop is the recursion on the new \<open>a\<close> or \<open>b\<close>, with
  the variables \<open>wasBalanced\<close> and \<open>wasPartitioned\<close> as arguments; a call of the library
  starts with both \<open>true\<close>.
\<close>

partial_function (option) pdqsort :: "SuggestItems \<Rightarrow> int \<Rightarrow> int \<Rightarrow> int \<Rightarrow> bool \<Rightarrow> bool
    \<Rightarrow> SuggestItems option" where
  "pdqsort data a b limit wasBalanced wasPartitioned =
     (let length = b - a in
      if length \<le> 12 then insertionSort_range data a b
      else if limit = 0 then None
      else if \<not> wasBalanced then None
      else
        do {
          (pivot, hint) \<leftarrow> choosePivot data a b;
          (data, pivot, hint) \<leftarrow>
            (if hint = decreasingHint then
               do {
                 data \<leftarrow> reverseRange data a b;
                 Some (data, (b - 1) - (pivot - a), increasingHint)
               }
             else Some (data, pivot, hint));
          (data, sorted) \<leftarrow>
            (if wasBalanced \<and> wasPartitioned \<and> hint = increasingHint
             then partialInsertionSort data a b
             else Some (data, False));
          if sorted then Some data
          else
            do {
              equal \<leftarrow> (if a > 0 then map_option Not (Less_at data (a - 1) pivot)
                           else Some False);
              if equal then
                do {
                  (data, mid) \<leftarrow> partitionEqual data a b pivot;
                  pdqsort data mid b limit wasBalanced wasPartitioned
                }
              else
                do {
                  (data, mid, alreadyPartitioned) \<leftarrow> partition_go data a b pivot;
                  let leftLen = mid - a;
                  let rightLen = b - mid;
                  let balanceThreshold = go_div length 8;
                  if leftLen < rightLen then
                    do {
                      data \<leftarrow> pdqsort data a mid limit True True;
                      pdqsort data (mid + 1) b limit (leftLen \<ge> balanceThreshold)
                        alreadyPartitioned
                    }
                  else
                    do {
                      data \<leftarrow> pdqsort data (mid + 1) b limit True True;
                      pdqsort data a mid limit (rightLen \<ge> balanceThreshold)
                        alreadyPartitioned
                    }
                }
            }
        })"

declare pdqsort.simps [code]

text \<open>\<open>sort.Sort(data)\<close>.\<close>

definition Sort :: "SuggestItems \<Rightarrow> SuggestItems option" where
  "Sort data = (let n = len data in
                if n \<le> 1 then Some data
                else pdqsort data 0 n (bits_Len (nat n)) True True)"

text \<open>\<open>sort.Sort\<close> as \<open>Lookup\<close> takes it, where the model above gives a result.\<close>

definition sort_Sort_lib :: "SuggestItems \<Rightarrow> SuggestItems" where
  "sort_Sort_lib data = the (Sort data)"

text \<open>
  Thirteen terms, each the word \<open>abcdef\<close> with two letters replaced by \<open>z\<close>: twelve of
  count 1 and, entered last, one of count 2. Each is at distance 2 from \<open>abcdef\<close>, and each
  is the one term in the bucket of the candidate that lacks the two letters.
\<close>

definition two_away :: "string \<Rightarrow> int64 \<Rightarrow> SuggestItem" where
  "two_away t c = \<lparr> term_si = t, distance = 2, count = c \<rparr>"

definition thirteen :: SymSpell where
  "thirteen =
     with_entry (with_entry (with_entry (with_entry (with_entry (with_entry (with_entry
     (with_entry (with_entry (with_entry (with_entry (with_entry (with_entry (engine 2 9 1)
       ''zzcdef'' 1) ''zbzdef'' 1) ''zbczef'' 1) ''zbcdzf'' 1) ''zbcdez'' 1)
       ''azzdef'' 1) ''azczef'' 1) ''azcdzf'' 1) ''azcdez'' 1)
       ''abzzef'' 1) ''abzdzf'' 1) ''abzdez'' 1)
       ''abczzf'' 2"

lemma thirteen_loop:
  "(let s = thirteen in
      (maxDictionaryEditDistance s, maxDictionaryWordLength s, prefixLength s,
       words s ''abcdef'',
       map_option suggestions
         (candidates_loop s ''abcdef'' AllV 2 6 [''abcdef'']
            \<lparr> suggestions = [], hashset1 = {}, hashset2 = {''abcdef''},
              maxEditDistance2 = 2, distanceComparer = NewDistanceComparer \<rparr>)))
   = (2, 6, 9, None,
      Some [two_away ''zzcdef'' 1, two_away ''zbzdef'' 1, two_away ''zbczef'' 1,
            two_away ''zbcdzf'' 1, two_away ''zbcdez'' 1, two_away ''azzdef'' 1,
            two_away ''azczef'' 1, two_away ''azcdzf'' 1, two_away ''azcdez'' 1,
            two_away ''abzzef'' 1, two_away ''abzdzf'' 1, two_away ''abzdez'' 1,
            two_away ''abczzf'' 2])"
  by code_simp


lemma thirteen_sorted:
  "Sort [two_away ''zzcdef'' 1, two_away ''zbzdef'' 1, two_away ''zbczef'' 1,
         two_away ''zbcdzf'' 1, two_away ''zbcdez'' 1, two_away ''azzdef'' 1,
         two_away ''azczef'' 1, two_away ''azcdzf'' 1, two_away ''azcdez'' 1,
         two_away ''abzzef'' 1, two_away ''abzdzf'' 1, two_away ''abzdez'' 1,
         two_away ''abczzf'' 2]
   = Some [two_away ''abczzf'' 2, two_away ''azczef'' 1, two_away ''zbczef'' 1,
           two_away ''zbcdzf'' 1, two_away ''zbcdez'' 1, two_away ''azzdef'' 1,
           two_away ''zzcdef'' 1, two_away ''azcdzf'' 1, two_away ''azcdez'' 1,
           two_away ''abzzef'' 1, two_away ''abzdzf'' 1, two_away ''abzdez'' 1,
           two_away ''zbzdef'' 1]"
  by code_simp

lemma thirteen_unique:
  "unique_terms {}
     [two_away ''abczzf'' 2, two_away ''azczef'' 1, two_away ''zbczef'' 1,
      two_away ''zbcdzf'' 1, two_away ''zbcdez'' 1, two_away ''azzdef'' 1,
      two_away ''zzcdef'' 1, two_away ''azcdzf'' 1, two_away ''azcdez'' 1,
      two_away ''abzzef'' 1, two_away ''abzdzf'' 1, two_away ''abzdez'' 1,
      two_away ''zbzdef'' 1]
   = [two_away ''abczzf'' 2, two_away ''azczef'' 1, two_away ''zbczef'' 1,
      two_away ''zbcdzf'' 1, two_away ''zbcdez'' 1, two_away ''azzdef'' 1,
      two_away ''zzcdef'' 1, two_away ''azcdzf'' 1, two_away ''azcdez'' 1,
      two_away ''abzzef'' 1, two_away ''abzdzf'' 1, two_away ''abzdez'' 1,
      two_away ''zbzdef'' 1]"
  by code_simp

text \<open>
  C5 as stated fails in its last part. For the input \<open>abcdef\<close> and the thirteen terms,
  the loop of \<open>Lookup\<close> appends the twelve terms of count 1 and then the term of count 2,
  all at distance 2. \<open>sort.Sort\<close> finds the slice out of order at its last item and
  partitions it around the item in the middle, which it swaps to the front: in the list
  that \<open>Lookup\<close> returns, \<open>azczef\<close> stands before \<open>zzcdef\<close> and \<open>zbzdef\<close> stands last, though
  all twelve tie in distance and count and \<open>zzcdef\<close> and \<open>zbzdef\<close> were appended first.
\<close>

theorem sort_Sort_reorders_ties:
  "map_option suggestions
     (candidates_loop thirteen ''abcdef'' AllV 2 6 [''abcdef'']
        \<lparr> suggestions = [], hashset1 = {}, hashset2 = {''abcdef''},
          maxEditDistance2 = 2, distanceComparer = NewDistanceComparer \<rparr>)
     = Some [two_away ''zzcdef'' 1, two_away ''zbzdef'' 1, two_away ''zbczef'' 1,
             two_away ''zbcdzf'' 1, two_away ''zbcdez'' 1, two_away ''azzdef'' 1,
             two_away ''azczef'' 1, two_away ''azcdzf'' 1, two_away ''azcdez'' 1,
             two_away ''abzzef'' 1, two_away ''abzdzf'' 1, two_away ''abzdez'' 1,
             two_away ''abczzf'' 2]
   \<and> Lookup sort_Sort_lib thirteen ''abcdef'' AllV 2 False
     = Some [two_away ''abczzf'' 2, two_away ''azczef'' 1, two_away ''zbczef'' 1,
             two_away ''zbcdzf'' 1, two_away ''zbcdez'' 1, two_away ''azzdef'' 1,
             two_away ''zzcdef'' 1, two_away ''azcdzf'' 1, two_away ''azcdez'' 1,
             two_away ''abzzef'' 1, two_away ''abzdzf'' 1, two_away ''abzdez'' 1,
             two_away ''zbzdef'' 1]"
proof -
  let ?init = "\<lparr> suggestions = [], hashset1 = {}, hashset2 = {''abcdef''},
                 maxEditDistance2 = 2, distanceComparer = NewDistanceComparer \<rparr>"
  let ?found = "[two_away ''zzcdef'' 1, two_away ''zbzdef'' 1, two_away ''zbczef'' 1,
             two_away ''zbcdzf'' 1, two_away ''zbcdez'' 1, two_away ''azzdef'' 1,
             two_away ''azczef'' 1, two_away ''azcdzf'' 1, two_away ''azcdez'' 1,
             two_away ''abzzef'' 1, two_away ''abzdzf'' 1, two_away ''abzdez'' 1,
             two_away ''abczzf'' 2]"
  have f: "maxDictionaryEditDistance thirteen = 2" "maxDictionaryWordLength thirteen = 6"
    "prefixLength thirteen = 9" "words thirteen ''abcdef'' = None"
    and l: "map_option suggestions
              (candidates_loop thirteen ''abcdef'' AllV 2 6 [''abcdef''] ?init) = Some ?found"
    using thirteen_loop by (simp_all add: Let_def)
  from l obtain st where st: "candidates_loop thirteen ''abcdef'' AllV 2 6 [''abcdef''] ?init
      = Some st" "suggestions st = ?found"
    by auto
  have i: "lookup_init thirteen ''abcdef'' 2 = ?init"
    by (simp add: lookup_init_def f)
  have w: "lookup_worklist thirteen ''abcdef'' = Some (6, [''abcdef''])"
    by (simp add: lookup_worklist_def f len_def)
  have "Lookup sort_Sort_lib thirteen ''abcdef'' AllV 2 False
          = Some (lookup_final ''abcdef'' 2 False (lookup_sorted sort_Sort_lib st))"
    unfolding Lookup_unfold by (simp add: f i w st(1) len_def del: candidates_loop.simps)
  moreover have "lookup_sorted sort_Sort_lib st = the (Sort ?found)"
    using thirteen_unique
    by (simp add: lookup_sorted_def st(2) sort_Sort_lib_def thirteen_sorted len_def)
  ultimately show ?thesis
    using l by (simp add: lookup_final_def thirteen_sorted)
qed

section \<open>Suggestions carry the live counts\<close>

text \<open>Every suggestion collected so far carries the count that \<open>words\<close> holds for its term.\<close>

definition live :: "SymSpell \<Rightarrow> lookup_state \<Rightarrow> bool" where
  "live s st = (\<forall>x \<in> set (suggestions st). words s (term_si x) = Some (count x))"

lemma lookup_suggestion_cases:
  assumes "lookup_suggestion s input v m candidate p st sugg = Some st'"
  obtains (skip) "st' = st"
  | (continue) "suggestion_distance s input v m candidate st sugg = Some (None, st')"
  | (admit) d st1 where "suggestion_distance s input v m candidate st sugg = Some (Some d, st1)"
      "st' = admit s v st1 sugg d"
  using assms
  by (auto simp: lookup_suggestion_def Let_def split: if_splits bind_splits option.splits)

lemma lookup_suggestion_live:
  assumes "sugg \<in> dom (words s)" "live s st"
    "lookup_suggestion s input v m candidate p st sugg = Some st'"
  shows "live s st'"
  using assms(3)
proof (cases rule: lookup_suggestion_cases)
  case skip
  then show ?thesis using assms(2) by simp
next
  case continue
  from suggestion_distance_fields [OF continue] assms(2) show ?thesis
    by (simp add: live_def)
next
  case (admit d st1)
  from suggestion_distance_fields [OF admit(1)] assms(2) have "live s st1"
    by (simp add: live_def)
  moreover from assms(1) obtain c where "words s sugg = Some c" by auto
  ultimately show ?thesis
    using admit_suggestions [of s v st1 sugg d] admit(2) by (auto simp: live_def)
qed

lemma candidates_loop_live:
  assumes "deletes_ok s" "live s st" "candidates_loop s input v m p cands st = Some st'"
  shows "live s st'"
proof (rule candidates_loop_invariant [where I = "live s", OF _ _ assms(2,3)])
  fix st candidate sugg st' h b
  assume "live s st" "deletes s h = Some b" "sugg \<in> set b"
    "lookup_suggestion s input v m candidate p st sugg = Some st'"
  then show "live s st'"
    using assms(1) lookup_suggestion_live [of sugg s st input v m candidate p st']
    by (auto simp: deletes_ok_def)
next
  fix st h assume "live s st"
  then show "live s (st\<lparr> hashset1 := h \<rparr>)" by (simp add: live_def)
qed

lemma Lookup_live:
  assumes "deletes_ok s" "sorts sort_Sort" "Lookup sort_Sort s input v m False = Some r"
    "x \<in> set r"
  shows "words s (term_si x) = Some (count x)"
proof -
  have i: "live s (lookup_init s input m)"
    by (auto simp: live_def lookup_init_def split: option.splits)
  from assms(3) show ?thesis
  proof (cases rule: Lookup_cases)
    case early
    then show ?thesis using i assms(4) by (auto simp: lookup_final_def live_def)
  next
    case none
    then show ?thesis using assms(4) by (simp add: lookup_final_def)
  next
    case (loop p cands st)
    from candidates_loop_live [OF assms(1) i loop(1)] have "live s st" .
    then show ?thesis
      using loop(2) assms(4) lookup_sorted_ok [OF assms(2), of st]
      by (auto simp: lookup_final_def live_def)
  qed
qed

text \<open>
  C10. After every sequence of \<open>CreateDictionaryEntry\<close> calls on an engine made by
  \<open>NewSymSpell\<close>, every term \<open>t\<close> of every bucket \<open>b\<close> of \<open>deletes\<close> is a key of \<open>words\<close>;
  and every item that \<open>Lookup\<close> (with \<open>includeUnknown = false\<close>) returns carries the
  count that \<open>words\<close> holds for its term.
\<close>

theorem bucket_terms_in_words:
  assumes "built s"
  shows "(deletes s h = Some b \<longrightarrow> t \<in> set b \<longrightarrow> t \<in> dom (words s))
         \<and> (sorts sort_Sort \<longrightarrow> Lookup sort_Sort s input v m False = Some r \<longrightarrow> x \<in> set r
              \<longrightarrow> words s (term_si x) = Some (count x))"
  using built_deletes_ok [OF assms] Lookup_live [of s sort_Sort input v m r x]
  by (auto simp: deletes_ok_def)


lemma built_pipe_pips: "built (with_entry (with_entry (engine 1 3 1) ''pipe'' 5) ''pips'' 10)"
  by (intro built_with_entry built_engine) code_simp

theorem bucket_terms_in_words_witness:
  "built (with_entry (with_entry (engine 1 3 1) ''pipe'' 5) ''pips'' 10)
   \<and> deletes (with_entry (with_entry (engine 1 3 1) ''pipe'' 5) ''pips'' 10)
        (GetStringHash (with_entry (with_entry (engine 1 3 1) ''pipe'' 5) ''pips'' 10) ''pi'')
      = Some [''pipe'', ''pips'']
   \<and> ''pips'' \<in> set [''pipe'', ''pips'']
   \<and> ''pips'' \<in> dom (words (with_entry (with_entry (engine 1 3 1) ''pipe'' 5) ''pips'' 10))
   \<and> sorts insertionSort
   \<and> Lookup insertionSort (with_entry (with_entry (engine 1 3 1) ''pipe'' 5) ''pips'' 10)
        ''pipe'' AllV 1 False
      = Some [\<lparr> term_si = ''pipe'', distance = 0, count = 5 \<rparr>,
              \<lparr> term_si = ''pips'', distance = 1, count = 10 \<rparr>]
   \<and> \<lparr> term_si = ''pips'', distance = 1, count = 10 \<rparr>
        \<in> set [\<lparr> term_si = ''pipe'', distance = 0, count = 5 \<rparr>,
                \<lparr> term_si = ''pips'', distance = 1, count = 10 \<rparr>]
   \<and> words (with_entry (with_entry (engine 1 3 1) ''pipe'' 5) ''pips'' 10)
        (term_si \<lparr> term_si = ''pips'', distance = 1, count = 10 \<rparr>)
      = Some (count \<lparr> term_si = ''pips'', distance = 1, count = 10 \<rparr>)"
proof -
  let ?E = "with_entry (with_entry (engine 1 3 1) ''pipe'' 5) ''pips'' 10"
  have d: "deletes ?E (GetStringHash ?E ''pi'') = Some [''pipe'', ''pips'']"
    by code_simp
  have l: "Lookup insertionSort ?E ''pipe'' AllV 1 False
      = Some [\<lparr> term_si = ''pipe'', distance = 0, count = 5 \<rparr>,
              \<lparr> term_si = ''pips'', distance = 1, count = 10 \<rparr>]"
    by code_simp
  show ?thesis
    using built_pipe_pips d l sorts_insertionSort
      bucket_terms_in_words [OF built_pipe_pips,
        of "GetStringHash ?E ''pi''" "[''pipe'', ''pips'']" "''pips''" insertionSort
           "''pipe''" AllV 1
           "[\<lparr> term_si = ''pipe'', distance = 0, count = 5 \<rparr>,
             \<lparr> term_si = ''pips'', distance = 1, count = 10 \<rparr>]"
           "\<lparr> term_si = ''pips'', distance = 1, count = 10 \<rparr>"]
    by simp
qed


section \<open>The distance engine: common prefix and suffix\<close>

lemma at_Some: "0 \<le> i \<Longrightarrow> i < len xs \<Longrightarrow> at xs i = Some (xs ! nat i)"
  by (simp add: at_def)

lemma store_Some: "0 \<le> i \<Longrightarrow> i < len xs \<Longrightarrow> store xs i v = Some (xs[nat i := v])"
  by (simp add: store_def)

lemma len_nonneg [simp]: "0 \<le> len xs"
  by (simp add: len_def)

lemma len_update [simp]: "len (xs[i := v]) = len xs"
  by (simp add: len_def)

lemma prefix_loop_result:
  "0 \<le> start \<Longrightarrow> len1 \<le> len r1 \<Longrightarrow> len2 \<le> len r2 \<Longrightarrow> start \<le> len1 \<Longrightarrow> start \<le> len2
   \<Longrightarrow> take (nat start) r1 = take (nat start) r2
   \<Longrightarrow> \<exists>k. prefix_loop r1 r2 len1 len2 start = Some k \<and> start \<le> k \<and> k \<le> len1 \<and> k \<le> len2
           \<and> take (nat k) r1 = take (nat k) r2"
proof (induction r1 r2 len1 len2 start rule: prefix_loop.induct)
  case (1 runeStr1 runeStr2 len1 len2 start)
  show ?case
  proof (cases "start < len1 \<and> start < len2")
    case False
    then show ?thesis using "1.prems" by (subst prefix_loop.simps) auto
  next
    case True
    then have a: "at runeStr1 start = Some (runeStr1 ! nat start)"
      "at runeStr2 start = Some (runeStr2 ! nat start)"
      using "1.prems" by (simp_all add: at_Some)
    show ?thesis
    proof (cases "runeStr1 ! nat start = runeStr2 ! nat start")
      case False
      then show ?thesis using True a "1.prems" by (subst prefix_loop.simps) auto
    next
      case eq: True
      have n: "nat (start + 1) = Suc (nat start)" using "1.prems"(1) by simp
      have l: "nat start < length runeStr1" "nat start < length runeStr2"
        using True "1.prems" by (auto simp: len_def nat_less_iff)
      have t: "take (nat (start + 1)) runeStr1 = take (nat (start + 1)) runeStr2"
        using eq "1.prems"(6) l by (simp add: n take_Suc_conv_app_nth)
      have "\<exists>k. prefix_loop runeStr1 runeStr2 len1 len2 (start + 1) = Some k \<and> start + 1 \<le> k
              \<and> k \<le> len1 \<and> k \<le> len2 \<and> take (nat k) runeStr1 = take (nat k) runeStr2"
        using "1.IH" [OF True a(1) a(2) eq _ "1.prems"(2,3) _ _ t] True "1.prems"(1) by simp
      then show ?thesis
        using True a eq by (subst prefix_loop.simps) auto
    qed
  qed
qed

lemma suffix_loop_result:
  "0 \<le> start \<Longrightarrow> 0 \<le> len1 \<Longrightarrow> 0 \<le> len2 \<Longrightarrow> start + len1 \<le> len r1 \<Longrightarrow> start + len2 \<le> len r2
   \<Longrightarrow> drop (nat (start + len1)) r1 = drop (nat (start + len2)) r2
   \<Longrightarrow> \<exists>l1 l2. suffix_loop r1 r2 start len1 len2 = Some (l1, l2) \<and> 0 \<le> l1 \<and> l1 \<le> len1
          \<and> 0 \<le> l2 \<and> l2 \<le> len2 \<and> len2 - len1 = l2 - l1
          \<and> drop (nat (start + l1)) r1 = drop (nat (start + l2)) r2"
proof (induction r1 r2 start len1 len2 rule: suffix_loop.induct)
  case (1 runeStr1 runeStr2 start len1 len2)
  show ?case
  proof (cases "len1 > 0 \<and> len2 > 0")
    case False
    then show ?thesis using "1.prems" by (subst suffix_loop.simps) auto
  next
    case True
    then have a: "at runeStr1 (start + len1 - 1) = Some (runeStr1 ! nat (start + len1 - 1))"
      "at runeStr2 (start + len2 - 1) = Some (runeStr2 ! nat (start + len2 - 1))"
      using "1.prems" by (simp_all add: at_Some)
    show ?thesis
    proof (cases "runeStr1 ! nat (start + len1 - 1) = runeStr2 ! nat (start + len2 - 1)")
      case False
      then show ?thesis using True a "1.prems" by (subst suffix_loop.simps) auto
    next
      case eq: True
      have n: "nat (start + len1) = Suc (nat (start + len1 - 1))"
        "nat (start + len2) = Suc (nat (start + len2 - 1))"
        using True "1.prems"(1) by linarith+
      have l: "nat (start + len1 - 1) < length runeStr1" "nat (start + len2 - 1) < length runeStr2"
        using True "1.prems" by (auto simp: len_def nat_less_iff)
      have d1: "drop (nat (start + len1 - 1)) runeStr1
                  = runeStr1 ! nat (start + len1 - 1) # drop (nat (start + len1)) runeStr1"
        using Cons_nth_drop_Suc [OF l(1)] by (simp only: n(1))
      have d2: "drop (nat (start + len2 - 1)) runeStr2
                  = runeStr2 ! nat (start + len2 - 1) # drop (nat (start + len2)) runeStr2"
        using Cons_nth_drop_Suc [OF l(2)] by (simp only: n(2))
      have e: "start + (len1 - 1) = start + len1 - 1" "start + (len2 - 1) = start + len2 - 1"
        by simp_all
      have d: "drop (nat (start + (len1 - 1))) runeStr1 = drop (nat (start + (len2 - 1))) runeStr2"
        unfolding e d1 d2 using eq "1.prems"(6) by simp
      have "\<exists>l1 l2. suffix_loop runeStr1 runeStr2 start (len1 - 1) (len2 - 1) = Some (l1, l2)
          \<and> 0 \<le> l1 \<and> l1 \<le> len1 - 1 \<and> 0 \<le> l2 \<and> l2 \<le> len2 - 1 \<and> (len2 - 1) - (len1 - 1) = l2 - l1
          \<and> drop (nat (start + l1)) runeStr1 = drop (nat (start + l2)) runeStr2"
        using "1.IH" [OF True a(1) a(2) eq "1.prems"(1) _ _ _ _ d] True "1.prems" by simp
      then show ?thesis
        using True a eq by (subst suffix_loop.simps) auto
    qed
  qed
qed

lemma prefixSuffixPrep_result:
  "\<exists>len1 len2 start. prefixSuffixPrep r1 r2 = Some (len1, len2, start)
     \<and> 0 \<le> start \<and> 0 \<le> len1 \<and> 0 \<le> len2 \<and> start + len1 \<le> len r1 \<and> start + len2 \<le> len r2
     \<and> len2 - len1 = len r2 - len r1
     \<and> take (nat start) r1 = take (nat start) r2
     \<and> drop (nat (start + len1)) r1 = drop (nat (start + len2)) r2"
proof -
  obtain k where k: "prefix_loop r1 r2 (len r1) (len r2) 0 = Some k" "0 \<le> k" "k \<le> len r1"
    "k \<le> len r2" "take (nat k) r1 = take (nat k) r2"
    using prefix_loop_result [of 0 "len r1" r1 "len r2" r2] by auto
  have "drop (nat (k + (len r1 - k))) r1 = drop (nat (k + (len r2 - k))) r2"
    by (simp add: len_def)
  with k obtain l1 l2 where "suffix_loop r1 r2 k (len r1 - k) (len r2 - k) = Some (l1, l2)"
    "0 \<le> l1" "l1 \<le> len r1 - k" "0 \<le> l2" "l2 \<le> len r2 - k"
    "(len r2 - k) - (len r1 - k) = l2 - l1"
    "drop (nat (k + l1)) r1 = drop (nat (k + l2)) r2"
    using suffix_loop_result [of k "len r1 - k" "len r2 - k" r1 r2] by auto
  with k show ?thesis
    by (simp add: prefixSuffixPrep_def)
qed

section \<open>The reference distance\<close>

lemma osa_Nil2 [simp]: "osa xs [] = length xs"
  by (cases xs) simp_all

lemma osa_le_sub: "osa (x # xs) (y # ys) \<le> (if x = y then 0 else 1) + osa xs ys"
  by (subst osa.simps(3)) (auto simp: Let_def split: list.splits)

lemma osa_le_del: "osa (x # xs) ys \<le> 1 + osa xs ys"
proof (cases ys)
  case Nil
  then show ?thesis by simp
next
  case (Cons y ys')
  show ?thesis unfolding Cons
    by (subst osa.simps(3)) (auto simp: Let_def split: list.splits)
qed

lemma osa_le_ins: "osa xs (y # ys) \<le> 1 + osa xs ys"
proof (cases xs)
  case Nil
  then show ?thesis by simp
next
  case (Cons x xs')
  show ?thesis unfolding Cons
    by (subst osa.simps(3)) (auto simp: Let_def split: list.splits)
qed

lemma osa_induct2 [case_names Nil1 Nil2 Cons]:
  assumes "\<And>ys. P [] ys" "\<And>x xs. P (x # xs) []"
    "\<And>x xs y ys. P xs ys \<Longrightarrow> P xs (y # ys) \<Longrightarrow> P (x # xs) ys
        \<Longrightarrow> (xs \<noteq> [] \<Longrightarrow> ys \<noteq> [] \<Longrightarrow> P (tl xs) (tl ys)) \<Longrightarrow> P (x # xs) (y # ys)"
  shows "P xs ys"
proof (induction "length xs + length ys" arbitrary: xs ys rule: less_induct)
  case less
  show ?case
  proof (cases xs)
    case Nil
    then show ?thesis by (simp add: assms(1))
  next
    case cx: (Cons x xs')
    show ?thesis
    proof (cases ys)
      case Nil
      then show ?thesis by (simp add: cx assms(2))
    next
      case cy: (Cons y ys')
      show ?thesis
        unfolding cx cy
      proof (rule assms(3))
        show "P xs' ys'" by (rule less.hyps) (simp add: cx cy)
        show "P xs' (y # ys')" by (rule less.hyps) (simp add: cx cy)
        show "P (x # xs') ys'" by (rule less.hyps) (simp add: cx cy)
        show "P (tl xs') (tl ys')" by (rule less.hyps) (simp add: cx cy)
      qed
    qed
  qed
qed

lemma osa_Cons_Cons:
  "osa (x # xs) (y # ys) =
     (let m = min ((if x = y then 0 else 1) + osa xs ys)
                (min (1 + osa xs (y # ys)) (1 + osa (x # xs) ys))
      in if xs \<noteq> [] \<and> ys \<noteq> [] \<and> x = hd ys \<and> hd xs = y
         then min m (1 + osa (tl xs) (tl ys)) else m)"
  by (subst osa.simps(3)) (cases xs; cases ys; simp add: Let_def)

lemma min4_bound:
  "(n::nat) \<le> a \<Longrightarrow> n \<le> b \<Longrightarrow> n \<le> c \<Longrightarrow> (T \<Longrightarrow> n \<le> d)
   \<Longrightarrow> n \<le> (let m = min a (min b c) in if T then min m d else m)"
  by (simp add: Let_def)

lemma osa_lower_diff:
  "length ys - length xs \<le> osa xs ys \<and> length xs - length ys \<le> osa xs ys"
proof (induction xs ys rule: osa_induct2)
  case (Nil1 ys)
  then show ?case by simp
next
  case (Nil2 x xs)
  then show ?case by simp
next
  case (Cons x xs y ys)
  have t: "xs \<noteq> [] \<and> ys \<noteq> [] \<Longrightarrow>
      length ys - length xs \<le> 1 + osa (tl xs) (tl ys)
      \<and> length xs - length ys \<le> 1 + osa (tl xs) (tl ys)"
    using Cons.IH(4) by (cases xs; cases ys) auto
  have a: "length ys - length xs \<le> (if x = y then 0 else 1) + osa xs ys"
    "length xs - length ys \<le> (if x = y then 0 else 1) + osa xs ys"
    "length ys - length xs \<le> 1 + osa xs (y # ys)" "length xs - length ys \<le> 1 + osa xs (y # ys)"
    "length ys - length xs \<le> 1 + osa (x # xs) ys" "length xs - length ys \<le> 1 + osa (x # xs) ys"
    using Cons.IH(1,2,3) by auto
  show ?case
    unfolding osa_Cons_Cons using a t by (intro conjI min4_bound) simp_all
qed

lemma osa_lower: "length ys \<le> length xs + osa xs ys \<and> length xs \<le> length ys + osa xs ys"
  using osa_lower_diff [of ys xs] by linarith

lemma osa_refl [simp]: "osa xs xs = 0"
proof (induction xs)
  case Nil
  then show ?case by simp
next
  case (Cons x xs)
  then show ?case using osa_le_sub [of x xs x xs] by simp
qed

lemma osa_eq_0: "osa xs ys = 0 \<Longrightarrow> xs = ys"
proof (induction xs ys rule: osa_induct2)
  case (Nil1 ys)
  then show ?case by simp
next
  case (Nil2 x xs)
  then show ?case by simp
next
  case (Cons x xs y ys)
  from Cons.prems have "(if x = y then 0 else 1) + osa xs ys = 0"
    unfolding osa_Cons_Cons Let_def by (simp add: min_def split: if_splits)
  then show ?case using Cons.IH(1) by (auto split: if_splits)
qed

lemma osa_prefix: "osa (p @ xs) (p @ ys) \<le> osa xs ys"
proof (induction p)
  case Nil
  then show ?case by simp
next
  case (Cons a p)
  then show ?case using osa_le_sub [of a "p @ xs" a "p @ ys"] by simp
qed

lemma osa_block_ins: "osa xs (mid @ xs) \<le> length mid"
proof (induction mid)
  case Nil
  then show ?case by simp
next
  case (Cons a mid)
  then show ?case using osa_le_ins [of xs a "mid @ xs"] by simp
qed

lemma osa_block_del: "osa (mid @ xs) xs \<le> length mid"
proof (induction mid)
  case Nil
  then show ?case by simp
next
  case (Cons a mid)
  then show ?case using osa_le_del [of a "mid @ xs" xs] by simp
qed

lemma osa_block:
  "osa (p @ q) (p @ mid @ q) = length mid" "osa (p @ mid @ q) (p @ q) = length mid"
proof -
  have "osa (p @ q) (p @ mid @ q) \<le> length mid"
    using osa_prefix [of p q "mid @ q"] osa_block_ins [of q mid] by simp
  moreover have "length mid \<le> osa (p @ q) (p @ mid @ q)"
    using osa_lower [of "p @ mid @ q" "p @ q"] by simp
  ultimately show "osa (p @ q) (p @ mid @ q) = length mid" by simp
  have "osa (p @ mid @ q) (p @ q) \<le> length mid"
    using osa_prefix [of p "mid @ q" q] osa_block_del [of mid q] by simp
  moreover have "length mid \<le> osa (p @ mid @ q) (p @ q)"
    using osa_lower [of "p @ q" "p @ mid @ q"] by simp
  ultimately show "osa (p @ mid @ q) (p @ q) = length mid" by simp
qed


section \<open>The distance engine before its dynamic program\<close>

text \<open>
  \<open>Distance\<close> reaches its dynamic program (\<open>dist\<close> or \<open>distanceWithMax\<close>) when no
  earlier \<open>return\<close> is taken: both strings are non-empty, \<open>maxDistance\<close> is positive, the
  rune lengths differ by at most \<open>maxDistance\<close>, and \<open>prefixSuffixPrep\<close> leaves a part of
  the shorter rune sequence.
\<close>

definition reaches_dp :: "string \<Rightarrow> string \<Rightarrow> int \<Rightarrow> bool" where
  "reaches_dp string1 string2 maxDistance =
     (string1 \<noteq> [] \<and> string2 \<noteq> [] \<and> 0 < maxDistance \<and>
      (let r1 = runes string1; r2 = runes string2;
           (runeStr1, runeStr2) = (if len r1 > len r2 then (r2, r1) else (r1, r2))
       in len runeStr2 - len runeStr1 \<le> maxDistance \<and>
          (case prefixSuffixPrep runeStr1 runeStr2 of
             Some (len1, len2, start) \<Rightarrow> len1 \<noteq> 0
           | None \<Rightarrow> True)))"

text \<open>The contract of section 4.A: the Damerau-OSA distance of the runes, or \<open>-1\<close> above \<open>M\<close>.\<close>

definition osa_capped :: "string \<Rightarrow> string \<Rightarrow> int \<Rightarrow> int" where
  "osa_capped a b M =
     (if M < int (osa (runes a) (runes b)) then -1 else int (osa (runes a) (runes b)))"

lemma runes_Nil_iff: "runes s = [] \<longleftrightarrow> s = []"
  by (cases s) simp_all

lemma nullDistanceResults_one_empty:
  assumes "b \<noteq> []"
  shows "nullDistanceResults [] b M = osa_capped [] b M"
    "nullDistanceResults b [] M = osa_capped b [] M"
    "nullDistanceResults [] b M = (if M < int (length (runes b)) then -1 else int (length (runes b)))"
  using assms by (auto simp: nullDistanceResults_def osa_capped_def len_def Let_def)

lemma nullDistanceResults_osa:
  assumes "a = [] \<or> b = []"
  shows "nullDistanceResults a b M
           = (if M \<le> 0 then (if a = b then 0 else -1) else osa_capped a b M)"
proof (cases "a = b")
  case True
  then show ?thesis using assms by (simp add: nullDistanceResults_def osa_capped_def)
next
  case False
  with assms consider "a = []" "b \<noteq> []" | "b = []" "a \<noteq> []" by auto
  then show ?thesis
  proof cases
    case 1
    then have "0 < length (runes b)" by (simp add: runes_Nil_iff)
    then have "M \<le> 0 \<Longrightarrow> M < int (length (runes b))" by linarith
    then have "M \<le> 0 \<Longrightarrow> osa_capped a b M = -1"
      using 1 by (simp add: osa_capped_def)
    then show ?thesis
      using 1 False nullDistanceResults_one_empty(1) [OF 1(2), of M] by simp
  next
    case 2
    then have "0 < length (runes a)" by (simp add: runes_Nil_iff)
    then have "M \<le> 0 \<Longrightarrow> M < int (length (runes a))" by linarith
    then have "M \<le> 0 \<Longrightarrow> osa_capped a b M = -1"
      using 2 by (simp add: osa_capped_def)
    then show ?thesis
      using 2 False nullDistanceResults_one_empty(2) [OF 2(2), of M] by simp
  qed
qed

lemma trimmed_block:
  assumes "prefixSuffixPrep r1 r2 = Some (0, len2, start)"
  shows "osa r1 r2 = nat len2 \<and> osa r2 r1 = nat len2 \<and> 0 \<le> len2"
proof -
  from prefixSuffixPrep_result [of r1 r2] assms
  have s: "0 \<le> start" "0 \<le> len2" "start \<le> len r1" "start + len2 \<le> len r2"
    and t: "take (nat start) r1 = take (nat start) r2"
    and d: "drop (nat start) r1 = drop (nat (start + len2)) r2"
    by auto
  define p where "p = take (nat start) r1"
  define q where "q = drop (nat start) r1"
  define mid where "mid = take (nat len2) (drop (nat start) r2)"
  have 1: "r1 = p @ q" by (simp add: p_def q_def)
  have "r2 = take (nat start) r2 @ drop (nat start) r2" by simp
  also have "drop (nat start) r2 = mid @ drop (nat len2) (drop (nat start) r2)"
    by (simp only: mid_def append_take_drop_id)
  also have "drop (nat len2) (drop (nat start) r2) = q"
    using s d by (simp add: q_def nat_add_distrib add.commute)
  finally have 2: "r2 = p @ mid @ q" by (simp add: p_def t)
  have "length mid = nat len2"
    using s by (simp add: mid_def len_def min_def) linarith
  then show ?thesis
    using osa_block(1) [of p q mid] osa_block(2) [of p mid q] 1 2 s by simp
qed

text \<open>
  What \<open>Distance\<close> returns before its dynamic program. For \<open>M \<le> 0\<close>, \<open>Distance(a, b, M)\<close>
  is 0 when the two strings are equal and \<open>-1\<close> otherwise. For \<open>M > 0\<close>, whenever \<open>Distance\<close>
  returns before its dynamic program, it returns the Damerau-OSA distance of the rune
  sequences, or \<open>-1\<close> when that distance exceeds \<open>M\<close>. The comparer is left as it was.
\<close>

lemma Distance_before_dp:
  assumes "\<not> reaches_dp a b M"
  shows "Distance d a b M
           = Some (if M \<le> 0 then (if a = b then 0 else -1) else osa_capped a b M, d)"
proof (cases "a = [] \<or> b = []")
  case True
  then show ?thesis
    using nullDistanceResults_osa [OF True, of M] by (simp add: Distance_def)
next
  case ne: False
  show ?thesis
  proof (cases "M \<le> 0")
    case True
    then show ?thesis using ne by (simp add: Distance_def)
  next
    case pos: False
    define r1 where "r1 = (if len (runes a) > len (runes b) then runes b else runes a)"
    define r2 where "r2 = (if len (runes a) > len (runes b) then runes a else runes b)"
    have o: "osa (runes a) (runes b) = osa r1 r2 \<or> osa (runes a) (runes b) = osa r2 r1"
      by (simp add: r1_def r2_def)
    show ?thesis
    proof (cases "len r2 - len r1 > M")
      case True
      have "nat (len r2 - len r1) \<le> osa r1 r2" "nat (len r2 - len r1) \<le> osa r2 r1"
        using osa_lower [of r2 r1] osa_lower [of r1 r2] by (simp_all add: len_def) linarith+
      then have "M < int (osa (runes a) (runes b))"
        using True o by auto
      then show ?thesis
        using ne pos True
        by (auto simp: Distance_def Let_def r1_def r2_def osa_capped_def split: if_splits)
    next
      case False
      obtain len1 len2 start where p: "prefixSuffixPrep r1 r2 = Some (len1, len2, start)"
        using prefixSuffixPrep_result [of r1 r2] by blast
      have "len1 = 0"
        using assms ne pos False p
        by (auto simp: reaches_dp_def Let_def r1_def r2_def split: if_splits)
      from trimmed_block [OF p [unfolded this]]
      have "int (osa (runes a) (runes b)) = len2"
        using o by auto
      then show ?thesis
        using ne pos False p \<open>len1 = 0\<close>
        by (auto simp: Distance_def Let_def r1_def r2_def osa_capped_def split: if_splits)
    qed
  qed
qed

lemma Distance_before_dp_steam:
  "\<not> reaches_dp ''steam'' ''steams'' 2
   \<and> Distance NewDamerauOSA ''steam'' ''steams'' 2 = Some (1, NewDamerauOSA)
   \<and> osa (runes ''steam'') (runes ''steams'') = 1"
proof -
  have h: "\<not> reaches_dp ''steam'' ''steams'' 2"
    by code_simp
  have c: "osa_capped ''steam'' ''steams'' 2 = 1" "osa (runes ''steam'') (runes ''steams'') = 1"
    by code_simp+
  show ?thesis
    using h c Distance_before_dp [OF h, of NewDamerauOSA] by simp
qed

section \<open>The dynamic program of the distance engine\<close>

text \<open>
  C3 fails on the code. The strings \<open>xab\<close> and \<open>yba\<close> are one substitution and one
  transposition of adjacent characters apart: their Damerau-OSA distance is 2. Both are
  non-empty with no common prefix or suffix, so \<open>Distance\<close> reaches its dynamic program.
  With \<open>maxDistance = 3\<close> the program \<open>dist\<close> returns 3, and with \<open>maxDistance = 2\<close> the
  banded program \<open>distanceWithMax\<close> returns \<open>-1\<close>, although the distance does not exceed 2.
  The loop body stores \<open>currentCost\<close> in \<open>prevChar1Costs[j]\<close> before it sets \<open>currentCost\<close>
  to \<open>leftCharCost\<close>, the cost of the diagonal, so the cost read for a transposition one row
  later is not the one two rows and two columns back.
\<close>

theorem Distance_miscounts_transposition:
  "reaches_dp ''xab'' ''yba'' 2
   \<and> osa (runes ''xab'') (runes ''yba'') = 2
   \<and> map_option fst (Distance NewDamerauOSA ''xab'' ''yba'' 2) = Some (-1)
   \<and> map_option fst (Distance NewDamerauOSA ''xab'' ''yba'' 3) = Some 3"
  by code_simp

section \<open>Two lookups that miss the distance\<close>

text \<open>
  C1 fails on the code. With \<open>maxDictionaryEditDistance = 1\<close> and \<open>prefixLength = 3\<close>, the
  term \<open>pipe\<close> in the dictionary and the input \<open>pip\<close>: for the candidates \<open>ip\<close>, \<open>pp\<close> and
  \<open>pi\<close> (of length \<open>prefixLength - maxEditDistance\<close>) the third branch is taken, which
  sets no distance, and \<open>pipe\<close> is admitted with the distance 0 that \<open>distance\<close> was
  initialised with. \<open>Lookup\<close> returns \<open>pipe\<close> at distance 0; the distance is 1, and
  \<open>Distance\<close> itself says so.
\<close>

theorem boundary_branch_reports_zero:
  "Lookup insertionSort (with_entry (engine 1 3 1) ''pipe'' 5) ''pip'' AllV 1 False
     = Some [\<lparr> term_si = ''pipe'', distance = 0, count = 5 \<rparr>]
   \<and> osa (runes ''pip'') (runes ''pipe'') = 1
   \<and> map_option fst (Distance NewDamerauOSA ''pip'' ''pipe'' 1) = Some 1"
  by code_simp

text \<open>
  C4 fails on the code in its last part. With \<open>maxDictionaryEditDistance = 2\<close> and
  \<open>prefixLength = 7\<close>, the term \<open>yba\<close> in the dictionary and the input \<open>xab\<close>: the
  Damerau-OSA distance is 2, but \<open>Distance\<close> returns \<open>-1\<close> for the bound 2, and
  \<open>Lookup\<close> with verbosity \<open>All\<close> and \<open>maxEditDistance = 2\<close> returns nothing.
\<close>

theorem All_misses_term_within_distance:
  "Lookup insertionSort (with_entry (engine 2 7 1) ''yba'' 5) ''xab'' AllV 2 False = Some []
   \<and> words (with_entry (engine 2 7 1) ''yba'' 5) ''yba'' = Some 5
   \<and> osa (runes ''xab'') (runes ''yba'') = 2
   \<and> map_option fst (Distance NewDamerauOSA ''xab'' ''yba'' 2) = Some (-1)"
  by code_simp

section \<open>The distance engine returns on every input\<close>

text \<open>
  Both cost rows of a state of the dynamic program have one and the same length \<open>n\<close>: every
  index the loops read or write is then in range.
\<close>

definition dp_lens :: "dp \<Rightarrow> int \<Rightarrow> bool" where
  "dp_lens s n = (len (char1Costs s) = n \<and> len (prevChar1Costs s) = n)"

lemma cell_total:
  assumes "dp_lens s n" "0 \<le> j" "j < n" "0 \<le> start" "start + j < len r2"
  shows "\<exists>s'. cell r2 start c1 p1 i j s = Some s' \<and> dp_lens s' n"
  using assms
  by (simp add: cell_def dp_lens_def at_Some store_Some Let_def)

lemma inner_total:
  "dp_lens s n \<Longrightarrow> 0 \<le> j \<Longrightarrow> jEnd \<le> n \<Longrightarrow> 0 \<le> start \<Longrightarrow> start + jEnd \<le> len r2
   \<Longrightarrow> \<exists>s'. inner r2 start c1 p1 i jEnd j s = Some s' \<and> dp_lens s' n"
proof (induction r2 start c1 p1 i jEnd j s rule: inner.induct)
  case (1 runeStr2 start char1 prevChar1 i jEnd j s)
  show ?case
  proof (cases "j < jEnd")
    case False
    then show ?thesis using "1.prems" by (subst inner.simps) simp
  next
    case True
    obtain s1 where s1: "cell runeStr2 start char1 prevChar1 i j s = Some s1" "dp_lens s1 n"
      using cell_total [of s n j start runeStr2 char1 prevChar1 i] True "1.prems" by auto
    have "\<exists>s'. inner runeStr2 start char1 prevChar1 i jEnd (j + 1) s1 = Some s' \<and> dp_lens s' n"
      using "1.IH" [OF True s1(1) s1(2)] "1.prems" by simp
    then show ?thesis using True s1 by (subst inner.simps) simp
  qed
qed

lemma fill_index_total:
  "0 \<le> j \<Longrightarrow> n \<le> len costs \<Longrightarrow> \<exists>c. fill_index costs j n = Some c \<and> len c = len costs"
proof (induction costs j n rule: fill_index.induct)
  case (1 costs j n)
  show ?case
  proof (cases "j < n")
    case False
    then show ?thesis by (subst fill_index.simps) simp
  next
    case True
    have s: "store costs j (j + 1) = Some (costs[nat j := j + 1])"
      using True "1.prems" by (simp add: store_Some)
    have "\<exists>c. fill_index (costs[nat j := j + 1]) (j + 1) n = Some c
            \<and> len c = len (costs[nat j := j + 1])"
      using "1.IH" [OF True s] "1.prems" by simp
    then show ?thesis using True s by (subst fill_index.simps) simp
  qed
qed

lemma fill_const_total:
  "0 \<le> j \<Longrightarrow> n \<le> len costs \<Longrightarrow> \<exists>c. fill_const costs j n v = Some c \<and> len c = len costs"
proof (induction costs j n v rule: fill_const.induct)
  case (1 costs j n v)
  show ?case
  proof (cases "j < n")
    case False
    then show ?thesis by (subst fill_const.simps) simp
  next
    case True
    have s: "store costs j v = Some (costs[nat j := v])"
      using True "1.prems" by (simp add: store_Some)
    have "\<exists>c. fill_const (costs[nat j := v]) (j + 1) n v = Some c
            \<and> len c = len (costs[nat j := v])"
      using "1.IH" [OF True s] "1.prems" by simp
    then show ?thesis using True s by (subst fill_const.simps) simp
  qed
qed

lemma dist_rows_total:
  "dp_lens s n \<Longrightarrow> 0 \<le> i \<Longrightarrow> 0 \<le> start \<Longrightarrow> start + len1 \<le> len r1 \<Longrightarrow> len2 \<le> n
   \<Longrightarrow> start + len2 \<le> len r2
   \<Longrightarrow> \<exists>s'. dist_rows r1 r2 len1 len2 start i c1 s = Some s' \<and> dp_lens s' n"
proof (induction r1 r2 len1 len2 start i c1 s rule: dist_rows.induct)
  case (1 runeStr1 runeStr2 len1 len2 start i char1 s)
  show ?case
  proof (cases "i < len1")
    case False
    then show ?thesis using "1.prems" by (subst dist_rows.simps) simp
  next
    case True
    define c where "c = runeStr1 ! nat (start + i)"
    have a: "at runeStr1 (start + i) = Some c"
      using True "1.prems" by (simp add: at_Some c_def)
    define s0 where "s0 = s\<lparr> char2 := 0, leftCharCost := i, aboveCharCost := i,
                            nextTransCost := 0 \<rparr>"
    have "dp_lens s0 n" using "1.prems"(1) by (simp add: dp_lens_def s0_def)
    then obtain s1 where s1: "inner runeStr2 start c char1 i len2 0 s0 = Some s1" "dp_lens s1 n"
      using inner_total [of s0 n 0 len2 start runeStr2 c char1 i] "1.prems" by auto
    have "\<exists>s'. dist_rows runeStr1 runeStr2 len1 len2 start (i + 1) c s1 = Some s' \<and> dp_lens s' n"
      using "1.IH" [OF True refl a s1(1) [unfolded s0_def] s1(2)] "1.prems" by simp
    then show ?thesis
      using True a s1 by (subst dist_rows.simps) (simp add: Let_def s0_def)
  qed
qed

lemma max_rows_total:
  "dp_lens s n \<Longrightarrow> 0 \<le> i \<Longrightarrow> 0 \<le> start \<Longrightarrow> start + len1 \<le> len r1 \<Longrightarrow> len2 \<le> n
   \<Longrightarrow> start + len2 \<le> len r2 \<Longrightarrow> len1 \<le> len2 \<Longrightarrow> 0 \<le> jStart \<Longrightarrow> jEnd \<le> len2
   \<Longrightarrow> \<exists>r. max_rows r1 r2 len1 len2 start m i jStart jEnd c1 s = Some r
           \<and> (case r of Inl s' \<Rightarrow> dp_lens s' n | Inr s' \<Rightarrow> dp_lens s' n)"
proof (induction r1 r2 len1 len2 start m i jStart jEnd c1 s rule: max_rows.induct)
  case (1 runeStr1 runeStr2 len1 len2 start maxDistance i jStart jEnd char1 s)
  show ?case
  proof (cases "i < len1")
    case False
    then show ?thesis using "1.prems" by (subst max_rows.simps) simp
  next
    case True
    define c where "c = runeStr1 ! nat (start + i)"
    have a: "at runeStr1 (start + i) = Some c"
      using True "1.prems" by (simp add: at_Some c_def)
    define js where "js = (if i > maxDistance - (len2 - len1) then jStart + 1 else jStart)"
    define je where "je = (if jEnd < len2 then jEnd + 1 else jEnd)"
    define s0 where "s0 = s\<lparr> char2 := 0, leftCharCost := i, aboveCharCost := i,
                            nextTransCost := 0 \<rparr>"
    have b: "0 \<le> js" "je \<le> len2"
      using "1.prems" by (auto simp: js_def je_def)
    have "dp_lens s0 n" using "1.prems"(1) by (simp add: dp_lens_def s0_def)
    then obtain s1 where s1: "inner runeStr2 start c char1 i je js s0 = Some s1" "dp_lens s1 n"
      using inner_total [of s0 n js je start runeStr2 c char1 i] "1.prems" b by auto
    define dd where "dd = char1Costs s1 ! nat (i + (len2 - len1))"
    have d: "at (char1Costs s1) (i + (len2 - len1)) = Some dd"
      using True s1(2) "1.prems" by (simp add: at_Some dd_def dp_lens_def)
    show ?thesis
    proof (cases "dd > maxDistance")
      case gt: True
      then show ?thesis
        using True a s1 d
        by (subst max_rows.simps)
           (simp add: Let_def s0_def [symmetric] js_def [symmetric] je_def [symmetric])
    next
      case le: False
      have "\<exists>r. max_rows runeStr1 runeStr2 len1 len2 start maxDistance (i + 1) js je c s1 = Some r
           \<and> (case r of Inl s' \<Rightarrow> dp_lens s' n | Inr s' \<Rightarrow> dp_lens s' n)"
        using "1.IH" [OF True refl refl refl a js_def je_def
            s1(1) [unfolded s0_def] d le s1(2)] "1.prems" b
        by simp
      then show ?thesis
        using True a s1 d le
        by (subst max_rows.simps)
           (simp add: Let_def s0_def [symmetric] js_def [symmetric] je_def [symmetric])
    qed
  qed
qed


lemma dist_total:
  assumes "len c0 = n" "len p0 = n" "0 \<le> start" "start + len1 \<le> len r1" "len2 \<le> n"
    "start + len2 \<le> len r2"
  shows "\<exists>r c p. dist r1 r2 len1 len2 start c0 p0 = Some (r, c, p) \<and> len c = n \<and> len p = n"
proof -
  obtain c where c: "fill_index c0 0 len2 = Some c" "len c = n"
    using fill_index_total [of 0 len2 c0] assms by auto
  define s0 where "s0 = \<lparr> char1Costs = c, prevChar1Costs = p0, currentCost = 0,
                leftCharCost = 0, aboveCharCost = 0, nextTransCost = 0, char2 = 0 \<rparr>"
  have "dp_lens s0 n" using c assms by (simp add: dp_lens_def s0_def)
  then obtain s1 where "dist_rows r1 r2 len1 len2 start 0 0 s0 = Some s1" "dp_lens s1 n"
    using dist_rows_total [of s0 n 0 start len1 r1 len2 r2 0] assms by auto
  then show ?thesis
    using c by (simp add: dist_def s0_def [symmetric] dp_lens_def)
qed

lemma distanceWithMax_total:
  assumes "len c0 = n" "len p0 = n" "0 \<le> start" "start + len1 \<le> len r1" "len2 \<le> n"
    "start + len2 \<le> len r2" "len1 \<le> len2" "0 \<le> m" "m < len2"
  shows "\<exists>r c p. distanceWithMax r1 r2 len1 len2 start m c0 p0 = Some (r, c, p)
           \<and> len c = n \<and> len p = n"
proof -
  obtain c where c: "fill_index c0 0 m = Some c" "len c = n"
    using fill_index_total [of 0 m c0] assms by auto
  obtain c' where c': "fill_const c m len2 (m + 1) = Some c'" "len c' = n"
    using fill_const_total [of m len2 c "m + 1"] c assms by auto
  define s0 where "s0 = \<lparr> char1Costs = c', prevChar1Costs = p0, currentCost = 0,
                leftCharCost = 0, aboveCharCost = 0, nextTransCost = 0, char2 = 0 \<rparr>"
  have "dp_lens s0 n" using c' assms by (simp add: dp_lens_def s0_def)
  then obtain r where r: "max_rows r1 r2 len1 len2 start m 0 0 m 0 s0 = Some r"
    "case r of Inl s' \<Rightarrow> dp_lens s' n | Inr s' \<Rightarrow> dp_lens s' n"
    using max_rows_total [of s0 n 0 start len1 r1 len2 r2 0 m m 0] assms by auto
  then show ?thesis
    using c c' by (cases r) (simp_all add: distanceWithMax_def s0_def [symmetric] dp_lens_def)
qed

text \<open>
  The two buffers of a comparer have the same length, as they have when \<open>NewDamerauOSA\<close>
  makes them and after every call of \<open>Distance\<close>.
\<close>

definition comparer_ok :: "DamerauOSA \<Rightarrow> bool" where
  "comparer_ok d = (len (baseChar1Costs d) = len (basePrevChar1Costs d))"

lemma Distance_returns_early:
  assumes "\<not> reaches_dp a b M"
  shows "\<exists>r. Distance d a b M = Some (r, d)"
proof -
  define r1 where "r1 = (if len (runes a) > len (runes b) then runes b else runes a)"
  define r2 where "r2 = (if len (runes a) > len (runes b) then runes a else runes b)"
  obtain len1 len2 start where p: "prefixSuffixPrep r1 r2 = Some (len1, len2, start)"
    using prefixSuffixPrep_result [of r1 r2] by blast
  show ?thesis
    using assms p
    by (auto simp: Distance_def reaches_dp_def Let_def r1_def r2_def split: if_splits)
qed

lemma Distance_total:
  assumes "comparer_ok d"
  shows "\<exists>r d'. Distance d a b M = Some (r, d') \<and> comparer_ok d'"
proof (cases "reaches_dp a b M")
  case False
  then show ?thesis using Distance_returns_early [OF False, of d] assms by auto
next
  case True
  define r1 where "r1 = (if len (runes a) > len (runes b) then runes b else runes a)"
  define r2 where "r2 = (if len (runes a) > len (runes b) then runes a else runes b)"
  have l: "len r1 \<le> len r2" by (simp add: r1_def r2_def)
  obtain len1 len2 start where p: "prefixSuffixPrep r1 r2 = Some (len1, len2, start)"
    and b: "0 \<le> start" "0 \<le> len1" "0 \<le> len2" "start + len1 \<le> len r1" "start + len2 \<le> len r2"
      "len2 - len1 = len r2 - len r1"
    using prefixSuffixPrep_result [of r1 r2] by blast
  from True have t: "a \<noteq> []" "b \<noteq> []" "0 < M" "len r2 - len r1 \<le> M" "len1 \<noteq> 0"
    using p by (auto simp: reaches_dp_def Let_def r1_def r2_def split: if_splits)
  define d1 where "d1 = (if len2 > len (baseChar1Costs d)
                            then \<lparr> baseChar1Costs = make_ints len2,
                                   basePrevChar1Costs = make_ints len2 \<rparr>
                            else d)"
  define n where "n = len (baseChar1Costs d1)"
  have n: "len (basePrevChar1Costs d1) = n" "len2 \<le> n"
    using assms b(3) by (auto simp: d1_def n_def comparer_ok_def make_ints_def len_def)
  have "\<exists>r c p. (if M < len2
            then distanceWithMax r1 r2 len1 len2 start M (baseChar1Costs d1) (basePrevChar1Costs d1)
            else dist r1 r2 len1 len2 start (baseChar1Costs d1) (basePrevChar1Costs d1))
          = Some (r, c, p) \<and> len c = n \<and> len p = n"
    using distanceWithMax_total [of "baseChar1Costs d1" n "basePrevChar1Costs d1" start len1 r1
        len2 r2 M]
      dist_total [of "baseChar1Costs d1" n "basePrevChar1Costs d1" start len1 r1 len2 r2]
      n b l t(3) by (auto simp: n_def)
  then obtain r c q where "(if M < len2
            then distanceWithMax r1 r2 len1 len2 start M (baseChar1Costs d1) (basePrevChar1Costs d1)
            else dist r1 r2 len1 len2 start (baseChar1Costs d1) (basePrevChar1Costs d1))
          = Some (r, c, q)" "len c = n" "len q = n"
    by blast
  then have "Distance d a b M = Some (r, \<lparr> baseChar1Costs = c, basePrevChar1Costs = q \<rparr>)"
    using t p
    by (auto simp: Distance_def Let_def r1_def r2_def d1_def split: if_splits)
  then show ?thesis
    using \<open>len c = n\<close> \<open>len q = n\<close> by (simp add: comparer_ok_def)
qed

section \<open>Lookup returns but for its first check\<close>

lemma skip_chars_total:
  "0 \<le> j \<Longrightarrow> n \<le> len sugg \<Longrightarrow> \<exists>j'. skip_chars sugg n c j = Some j' \<and> 0 \<le> j'"
proof (induction sugg n c j rule: skip_chars.induct)
  case (1 sugg suggestionLen delChar j)
  show ?case
  proof (cases "j < suggestionLen")
    case False
    then show ?thesis using "1.prems" by (subst skip_chars.simps) simp
  next
    case True
    have a: "at sugg j = Some (sugg ! nat j)"
      using True "1.prems" by (simp add: at_Some)
    show ?thesis
    proof (cases "delChar \<noteq> sugg ! nat j")
      case False
      then show ?thesis using True a "1.prems" by (subst skip_chars.simps) simp
    next
      case ne: True
      have "\<exists>j'. skip_chars sugg suggestionLen delChar (j + 1) = Some j' \<and> 0 \<le> j'"
        using "1.IH" [OF True a ne] "1.prems" by simp
      then show ?thesis using True a ne by (subst skip_chars.simps) simp
    qed
  qed
qed

lemma prefix_chars_total:
  "0 \<le> i \<Longrightarrow> 0 \<le> j \<Longrightarrow> deleteLen \<le> len delete \<Longrightarrow> n \<le> len sugg
   \<Longrightarrow> \<exists>b. prefix_chars delete deleteLen sugg n i j = Some b"
proof (induction delete deleteLen sugg n i j rule: prefix_chars.induct)
  case (1 delete deleteLen sugg suggestionLen i j)
  show ?case
  proof (cases "i < deleteLen")
    case False
    then show ?thesis by (subst prefix_chars.simps) auto
  next
    case True
    have a: "at delete i = Some (delete ! nat i)"
      using True "1.prems" by (simp add: at_Some)
    obtain j' where j': "skip_chars sugg suggestionLen (delete ! nat i) j = Some j'" "0 \<le> j'"
      using skip_chars_total [of j suggestionLen sugg "delete ! nat i"] "1.prems" by auto
    show ?thesis
    proof (cases "j' = suggestionLen")
      case True
      then show ?thesis using \<open>i < deleteLen\<close> a j' by (subst prefix_chars.simps) auto
    next
      case False
      have "\<exists>b. prefix_chars delete deleteLen sugg suggestionLen (i + 1) j' = Some b"
        using "1.IH" [OF True a j'(1) False] "1.prems" j'(2) by simp
      then show ?thesis using True a j' False by (subst prefix_chars.simps) simp
    qed
  qed
qed

lemma deleteInSuggestionPrefix_total:
  "\<exists>b. deleteInSuggestionPrefix s delete (len delete) sugg (len sugg) = Some b"
  using prefix_chars_total [of 0 0 "len delete" delete "prefixLength s" sugg]
    prefix_chars_total [of 0 0 "len delete" delete "len sugg" sugg]
  by (auto simp: deleteInSuggestionPrefix_def Let_def)

lemma tail_differs_total:
  assumes "1 \<le> P"
  shows "\<exists>b. tail_differs input (len input) sugg (len sugg) (min (len input) (len sugg) - P)
              = Some b"
proof -
  define k where "k = min (len input) (len sugg) - P"
  have k: "k \<le> len input - 1" "k \<le> len sugg - 1"
    using assms by (auto simp: k_def)
  show ?thesis
    unfolding k_def [symmetric]
    using k by (auto simp: tail_differs_def slice_from_def at_def)
qed

lemma admit_comparer [simp]: "distanceComparer (admit s v st sugg d) = distanceComparer st"
  by (auto simp: admit_def Let_def split: list.splits Verbosity.splits)

text \<open>The comparer carried through a lookup keeps its two buffers of one length.\<close>

definition state_ok :: "lookup_state \<Rightarrow> bool" where
  "state_ok st = comparer_ok (distanceComparer st)"

lemma suggestion_distance_total:
  assumes "1 \<le> prefixLength s" "state_ok st"
  shows "\<exists>d st'. suggestion_distance s input v m candidate st sugg = Some (d, st') \<and> state_ok st'"
proof -
  consider (a) "len candidate = 0"
    | (b) "len candidate \<noteq> 0" "len sugg = 1"
    | (c) "len candidate \<noteq> 0" "len sugg \<noteq> 1" "prefixLength s - m = len candidate"
    | (d) "len candidate \<noteq> 0" "len sugg \<noteq> 1" "prefixLength s - m \<noteq> len candidate"
    by blast
  then show ?thesis
  proof cases
    case a
    then show ?thesis using assms(2)
      by (auto simp: suggestion_distance_def Let_def addToSet_def state_ok_def)
  next
    case b
    then have "at sugg 0 = Some (sugg ! 0)" by (simp add: at_def)
    then show ?thesis using b assms(2)
      by (auto simp: suggestion_distance_def Let_def addToSet_def state_ok_def)
  next
    case c
    obtain t where "tail_differs input (len input) sugg (len sugg)
        (min (len input) (len sugg) - prefixLength s) = Some t"
      using tail_differs_total [OF assms(1)] by blast
    then show ?thesis using c assms(2)
      by (auto simp: suggestion_distance_def Let_def)
  next
    case d
    obtain t where t: "deleteInSuggestionPrefix s candidate (len candidate) sugg (len sugg) = Some t"
      using deleteInSuggestionPrefix_total by blast
    obtain r d' where r: "Compare (distanceComparer st) input sugg (maxEditDistance2 st)
        = Some (r, d')" "comparer_ok d'"
      using Distance_total [of "distanceComparer st" input sugg "maxEditDistance2 st"] assms(2)
      unfolding Compare_def state_ok_def by blast
    have r2: "Compare (distanceComparer (st\<lparr>hashset2 := h\<rparr>)) input sugg
            (maxEditDistance2 (st\<lparr>hashset2 := h\<rparr>)) = Some (r, d')" for h
      using r by simp
    show ?thesis using d t r assms(2)
      by (auto simp: suggestion_distance_def Let_def addToSet_def state_ok_def)
  qed
qed

lemma lookup_suggestion_total:
  assumes "1 \<le> prefixLength s" "state_ok st"
  shows "\<exists>st'. lookup_suggestion s input v m candidate p st sugg = Some st' \<and> state_ok st'"
proof -
  obtain d st1 where "suggestion_distance s input v m candidate st sugg = Some (d, st1)"
    "state_ok st1"
    using suggestion_distance_total [OF assms] by blast
  then show ?thesis
    using assms(2)
    by (cases d) (auto simp: lookup_suggestion_def Let_def state_ok_def)
qed

lemma foldlM_total:
  "(\<And>st x. J st \<Longrightarrow> \<exists>st'. f st x = Some st' \<and> J st') \<Longrightarrow> J st
   \<Longrightarrow> \<exists>st'. foldlM f st xs = Some st' \<and> J st'"
proof (induction xs arbitrary: st)
  case Nil
  then show ?case by simp
next
  case (Cons x xs)
  obtain st1 where s1: "f st x = Some st1" "J st1"
    using Cons.prems(1) [OF Cons.prems(2)] by blast
  obtain st2 where "foldlM f st1 xs = Some st2" "J st2"
    using Cons.IH [OF Cons.prems(1) s1(2)] by blast
  with s1 show ?case by simp
qed

lemma candidates_loop_total:
  assumes "1 \<le> prefixLength s"
  shows "state_ok st \<Longrightarrow> \<exists>st'. candidates_loop s input v m p cands st = Some st' \<and> state_ok st'"
proof (induction "work cands" arbitrary: cands st rule: less_induct)
  case less
  show ?case
  proof (cases cands)
    case Nil
    then show ?thesis using less.prems by simp
  next
    case (Cons c cs)
    have w1: "work cs < work cands"
      by (simp add: Cons work_def)
    have w2: "work (snd (expand c 0 h cs)) < work cands" for h
      by (simp add: Cons work_expand_less)
    show ?thesis
    proof (cases "maxEditDistance2 st < p - len c")
      case True
      then show ?thesis
        using less.prems less.hyps [OF w1 less.prems] by (auto simp: Cons Let_def)
    next
      case False
      define bucket where "bucket = (case deletes s (GetStringHash s c) of
          Some dictSuggestions \<Rightarrow> foldlM (lookup_suggestion s input v m c p) st dictSuggestions
        | None \<Rightarrow> Some st)"
      have "\<exists>a. bucket = Some a \<and> state_ok a"
      proof (cases "deletes s (GetStringHash s c)")
        case None
        then show ?thesis using less.prems by (simp add: bucket_def)
      next
        case (Some b)
        have "\<exists>a. foldlM (lookup_suggestion s input v m c p) st b = Some a \<and> state_ok a"
          by (rule foldlM_total [where J = state_ok, OF _ less.prems])
             (rule lookup_suggestion_total [OF assms])
        then show ?thesis using Some by (simp add: bucket_def)
      qed
      then obtain a where a: "bucket = Some a" "state_ok a" by blast
      have h: "state_ok (a\<lparr> hashset1 := fst (expand c 0 (hashset1 a) cs) \<rparr>)"
        using a(2) by (simp add: state_ok_def)
      show ?thesis
        using False a less.hyps [OF w1 a(2)] less.hyps [OF w2 h]
        by (auto simp: Cons Let_def bucket_def [symmetric])
    qed
  qed
qed

lemma lookup_worklist_total:
  "0 \<le> prefixLength s \<Longrightarrow> \<exists>p cands. lookup_worklist s input = Some (p, cands)"
  by (auto simp: lookup_worklist_def slice_to_def)

lemma Lookup_total:
  assumes "1 \<le> prefixLength s" "m \<le> maxDictionaryEditDistance s"
  shows "\<exists>r. Lookup sort_Sort s input v m iu = Some r"
proof -
  obtain p cands where w: "lookup_worklist s input = Some (p, cands)"
    using lookup_worklist_total [of s input] assms(1) by auto
  have "state_ok (lookup_init s input m)"
    by (simp add: state_ok_def lookup_init_def comparer_ok_def NewDistanceComparer_def
        NewDamerauOSA_def)
  then obtain st where "candidates_loop s input v m p cands (lookup_init s input m) = Some st"
    using candidates_loop_total [OF assms(1)] by blast
  then show ?thesis
    using w assms(2) unfolding Lookup_unfold by simp
qed

lemma Lookup_panics: "maxDictionaryEditDistance s < m \<Longrightarrow> Lookup sort_Sort s input v m iu = None"
  by (simp add: Lookup_def)

lemma threshold_step_config:
  "threshold_step s key c = Inl s' \<Longrightarrow>
     prefixLength s' = prefixLength s \<and> maxDictionaryEditDistance s' = maxDictionaryEditDistance s"
  "threshold_step s key c = Inr (s1, c1) \<Longrightarrow>
     prefixLength s1 = prefixLength s \<and> maxDictionaryEditDistance s1 = maxDictionaryEditDistance s"
  by (auto simp: threshold_step_def Let_def split: if_splits option.splits)

lemma index_step_config:
  "index_step s1 key c1 g = Some (b, s', g') \<Longrightarrow>
     prefixLength s' = prefixLength s1 \<and> maxDictionaryEditDistance s' = maxDictionaryEditDistance s1"
  by (cases g) (auto simp: index_step_def Let_def split: if_splits bind_splits)

lemma CreateDictionaryEntry_config:
  assumes "CreateDictionaryEntry s key c g = Some (b, s', g')"
  shows "prefixLength s' = prefixLength s
         \<and> maxDictionaryEditDistance s' = maxDictionaryEditDistance s"
proof (cases "c \<le>s 0 \<and> 0 <s countThreshold s")
  case True
  then show ?thesis using assms by (simp add: CreateDictionaryEntry_steps)
next
  case False
  show ?thesis
  proof (cases "threshold_step s key (if c \<le>s 0 then 0 else c)")
    case (Inl s0)
    then have "s' = s0" using assms False by (simp add: CreateDictionaryEntry_steps)
    with threshold_step_config(1) [OF Inl] show ?thesis by simp
  next
    case (Inr r)
    obtain s1 c1 where r: "r = (s1, c1)" by (cases r)
    have "index_step s1 key c1 g = Some (b, s', g')"
      using assms False Inr r by (simp add: CreateDictionaryEntry_steps)
    from index_step_config [OF this] threshold_step_config(2) [OF Inr [unfolded r]]
    show ?thesis by simp
  qed
qed

lemma NewSymSpell_config:
  "NewSymSpell c m p t l = Inr s \<Longrightarrow> 1 \<le> prefixLength s \<and> 0 \<le> maxDictionaryEditDistance s
     \<and> maxDictionaryEditDistance s < prefixLength s"
  by (auto simp: NewSymSpell_def split: if_splits)

lemma built_config:
  "built s \<Longrightarrow> 1 \<le> prefixLength s \<and> 0 \<le> maxDictionaryEditDistance s
     \<and> maxDictionaryEditDistance s < prefixLength s"
proof (induction rule: built.induct)
  case (new c m p t l s)
  then show ?case by (rule NewSymSpell_config)
next
  case (entry s key cnt staging b s' staging')
  from CreateDictionaryEntry_config [OF entry.hyps(2)] entry.IH show ?case by simp
qed

text \<open>
  C8. On an engine made by \<open>NewSymSpell\<close> and any number of calls of
  \<open>CreateDictionaryEntry\<close>, \<open>Lookup\<close> panics exactly when it is called with
  \<open>maxEditDistance > maxDictionaryEditDistance\<close>: for every input, verbosity and
  \<open>includeUnknown\<close>, and whatever \<open>sort.Sort\<close> does, a call with
  \<open>maxEditDistance \<le> maxDictionaryEditDistance\<close> returns a list of suggestions. Every index
  and slice expression of \<open>Lookup\<close>, of \<open>deleteInSuggestionPrefix\<close> and of the distance
  engine is a \<open>None\<close> of the model when it is out of range, and the two loops of \<open>Lookup\<close>
  are total functions, so the result \<open>Some r\<close> is a result returned by the code.
\<close>

theorem Lookup_panics_iff:
  "built s \<Longrightarrow> (Lookup sort_Sort s input v m iu = None) = (maxDictionaryEditDistance s < m)"
proof -
  assume "built s"
  then have p: "1 \<le> prefixLength s" by (simp add: built_config)
  show ?thesis
  proof (cases "maxDictionaryEditDistance s < m")
    case True
    then show ?thesis by (simp add: Lookup_panics)
  next
    case False
    then have "m \<le> maxDictionaryEditDistance s" by simp
    from Lookup_total [OF p this, of sort_Sort input v iu] False show ?thesis by auto
  qed
qed


lemma built_pawn: "built (with_entry (engine 2 7 1) ''pawn'' 10)"
  by (rule built_with_entry [OF built_engine_2_7_1])

theorem Lookup_panics_iff_witness:
  "built (with_entry (engine 2 7 1) ''pawn'' 10)
   \<and> maxDictionaryEditDistance (with_entry (engine 2 7 1) ''pawn'' 10) = 2
   \<and> Lookup insertionSort (with_entry (engine 2 7 1) ''pawn'' 10) ''paw'' Top 3 False = None
   \<and> Lookup insertionSort (with_entry (engine 2 7 1) ''pawn'' 10) ''paw'' Top 2 False \<noteq> None"
proof -
  have m: "maxDictionaryEditDistance (with_entry (engine 2 7 1) ''pawn'' 10) = 2"
    by code_simp
  show ?thesis
    using built_pawn m
      Lookup_panics_iff [OF built_pawn, of insertionSort "''paw''" Top 3 False]
      Lookup_panics_iff [OF built_pawn, of insertionSort "''paw''" Top 2 False]
    by simp
qed

end
